theory Spec2Isabelle
  imports Complex_Main
begin

section \<open>Strings\<close>

text \<open>
  A Python \<open>str\<close> is a sequence of Unicode code points.  The titles and keywords of
  the program are Korean, so a string is modelled as the list of its code points;
  \<open>asc\<close> embeds an ASCII literal.
\<close>

type_synonym ustr = "nat list"

definition asc :: "string \<Rightarrow> ustr" where
  "asc s = map of_char s"

text \<open>\<open>text.startswith(k)\<close> and the substring test \<open>k in text\<close>.\<close>

fun startswith :: "ustr \<Rightarrow> ustr \<Rightarrow> bool" where
  "startswith cs [] = True"
| "startswith [] (k # ks) = False"
| "startswith (c # cs) (k # ks) = (c = k \<and> startswith cs ks)"

fun str_contains :: "ustr \<Rightarrow> ustr \<Rightarrow> bool" where
  "str_contains [] k = (k = [])"
| "str_contains (c # cs) k = (startswith (c # cs) k \<or> str_contains cs k)"

text \<open>The declarative reading of "k occurs in t as a substring".\<close>

definition occurs_in :: "ustr \<Rightarrow> ustr \<Rightarrow> bool" where
  "occurs_in k t = (\<exists>pre post. t = pre @ k @ post)"

section \<open>Sentiment classifier\<close>

definition BULL_KEYS_STRONG :: "ustr list" where
  "BULL_KEYS_STRONG = [
   [0xBB34, 0xC0C1, 0xC99D, 0xC790],
   [0xC790, 0xC0AC, 0xC8FC, 0x20, 0xB9E4, 0xC785],
   [0xBC30, 0xB2F9, 0x20, 0xD655, 0xB300],
   [0xACE0, 0xBC30, 0xB2F9],
   [0xD2B9, 0xD5C8, 0x20, 0xCDE8, 0xB4DD],
   [0xC2E0, 0xC81C, 0xD488],
   [0xC9C0, 0xC218, 0x20, 0xD3B8, 0xC785],
   [0xC815, 0xBD80, 0x20, 0xC815, 0xCC45],
   [0xACBD, 0xC601, 0xAD8C, 0x20, 0xBD84, 0xC7C1, 0x20, 0xC2B9, 0xC18C],
   [0xC561, 0xBA74, 0xBD84, 0xD560],
   [0xBAA9, 0xD45C, 0xAC00, 0x20, 0xC0C1, 0xD5A5],
   [0xB9E4, 0xC218, 0x20, 0xC758, 0xACAC],
   [0xC5B4, 0xB2DD, 0x20, 0xC11C, 0xD504, 0xB77C, 0xC774, 0xC988],
   [0xC2E4, 0xC801, 0x20, 0xAC1C, 0xC120]]"

definition BEAR_KEYS_STRONG :: "ustr list" where
  "BEAR_KEYS_STRONG = [
   [0xC720, 0xC0C1, 0xC99D, 0xC790],
   [0xBB34, 0xC0C1, 0xAC10, 0xC790],
   [0xC804, 0xD658, 0xC0AC, 0xCC44],
   [0xC8FC, 0xC2DD, 0xAD00, 0xB828, 0xC0AC, 0xCC44],
   [0xBD88, 0xC131, 0xC2E4, 0xACF5, 0xC2DC],
   [0xAD00, 0xB9AC, 0xC885, 0xBAA9, 0x20, 0xC9C0, 0xC815],
   [0xAC10, 0xC0AC, 0xC758, 0xACAC],
   [0xC758, 0xACAC, 0xAC70, 0xC808],
   [0xBD80, 0xC801, 0xC815],
   [0xD55C, 0xC815],
   [0xC2E4, 0xC801, 0x20, 0xC545, 0xD654],
   [0xAC00, 0xC774, 0xB358, 0xC2A4, 0x20, 0xD558, 0xD5A5],
   [0xADDC, 0xC81C, 0x20, 0xAC15, 0xD654],
   [0xD658, 0xC728, 0x20, 0xBD80, 0xB2F4],
   [0xC6D0, 0xC790, 0xC7AC, 0x20, 0xAC00, 0xACA9, 0x20, 0xC0C1, 0xC2B9],
   [0xC18C, 0xC1A1],
   [0xD6A1, 0xB839],
   [0xBC30, 0xC784],
   [0xAC70, 0xB798, 0xC815, 0xC9C0],
   [0xC0C1, 0xC7A5, 0xC801, 0xACA9, 0xC131],
   [0xB300, 0xB7C9, 0x20, 0xB9E4, 0xB3C4],
   [0xC784, 0xC6D0, 0x20, 0xB9E4, 0xB3C4],
   [0xCD5C, 0xB300, 0xC8FC, 0xC8FC, 0x20, 0xB9E4, 0xB3C4]]"

text \<open>
  \<open>BULL_KEYS\<close> and \<open>BEAR_KEYS\<close> are Python sets built from the strong list plus
  further keywords.  They are only iterated by \<open>any\<close>, so the order does not matter
  and a list models them.
\<close>

definition BULL_KEYS :: "ustr list" where
  "BULL_KEYS = BULL_KEYS_STRONG @ [
   [0xC218, 0xC8FC],
   [0xACF5, 0xAE09, 0x20, 0xACC4, 0xC57D],
   [0xC0AC, 0xC5C5, 0x20, 0xC81C, 0xD734],
   [0xC778, 0xC99D, 0x20, 0xD68D, 0xB4DD],
   [0xC218, 0xD61C],
   [0xD14C, 0xB9C8]]"

definition BEAR_KEYS :: "ustr list" where
  "BEAR_KEYS = BEAR_KEYS_STRONG @ [
   [0xB9AC, 0xCF5C],
   [0xACC4, 0xC57D, 0x20, 0xD574, 0xC9C0],
   [0xC190, 0xC0C1, 0xCC28, 0xC190],
   [0xD30C, 0xAE30],
   [0xBC8C, 0xAE08],
   [0xC81C, 0xC7AC],
   [0xC555, 0xC218, 0xC218, 0xC0C9]]"

text \<open>The five labels \<open>classify_sentiment\<close> returns, and the two tags searched in them.\<close>

definition BEAR_STRONG :: ustr where "BEAR_STRONG = [0xC545, 0xC7AC, 0x28, 0xAC15, 0x29]"
definition BULL_STRONG :: ustr where "BULL_STRONG = [0xD638, 0xC7AC, 0x28, 0xAC15, 0x29]"
definition BEAR_WEAK :: ustr where "BEAR_WEAK = [0xC545, 0xC7AC, 0x28, 0xBCF4, 0xD1B5, 0x29]"
definition BULL_WEAK :: ustr where "BULL_WEAK = [0xD638, 0xC7AC, 0x28, 0xBCF4, 0xD1B5, 0x29]"
definition NEUTRAL :: ustr where "NEUTRAL = [0xC911, 0xB9BD]"
definition TAG_BEAR :: ustr where "TAG_BEAR = [0xC545, 0xC7AC]"
definition TAG_BULL :: ustr where "TAG_BULL = [0xD638, 0xC7AC]"

definition contains_any :: "ustr \<Rightarrow> ustr list \<Rightarrow> bool" where
  "contains_any text keys = (\<exists>k \<in> set keys. str_contains text k)"

definition classify_sentiment :: "ustr \<Rightarrow> ustr" where
  "classify_sentiment title =
     (let t = title in
      if contains_any t BEAR_KEYS_STRONG then BEAR_STRONG
      else if contains_any t BULL_KEYS_STRONG then BULL_STRONG
      else if contains_any t BEAR_KEYS then BEAR_WEAK
      else if contains_any t BULL_KEYS then BULL_WEAK
      else NEUTRAL)"

section \<open>Exceptions\<close>

text \<open>The exceptions of the program that the model tracks.\<close>

datatype error = UnicodeEncodeError | JSONDecodeError | ValueError

section \<open>Time\<close>

text \<open>
  Python compares strings code point by code point; the same lexicographic order
  compares the fields of two datetimes.
\<close>

fun lex_le :: "nat list \<Rightarrow> nat list \<Rightarrow> bool" where
  "lex_le [] ys = True"
| "lex_le (x # xs) [] = False"
| "lex_le (x # xs) (y # ys) = (x < y \<or> (x = y \<and> lex_le xs ys))"

text \<open>
  Every datetime of the program carries the one fixed zone \<open>TZ\<close> (+09:00): \<open>now()\<close>
  is \<open>datetime.now(TZ)\<close> and both adapters build their timestamps with \<open>TZ\<close>.
  A datetime is therefore its seven calendar fields.
\<close>

record datetime =
  year :: nat
  month :: nat
  day :: nat
  hour :: nat
  minute :: nat
  second :: nat
  microsecond :: nat

definition is_leap :: "nat \<Rightarrow> bool" where
  "is_leap y = (y mod 4 = 0 \<and> (y mod 100 \<noteq> 0 \<or> y mod 400 = 0))"

definition days_in_month :: "nat \<Rightarrow> nat \<Rightarrow> nat" where
  "days_in_month y m =
     (if m = 2 then (if is_leap y then 29 else 28)
      else if m = 4 \<or> m = 6 \<or> m = 9 \<or> m = 11 then 30 else 31)"

text \<open>The ranges the \<open>datetime\<close> constructor enforces.\<close>

definition valid_dt :: "datetime \<Rightarrow> bool" where
  "valid_dt d = (1 \<le> year d \<and> year d \<le> 9999 \<and> 1 \<le> month d \<and> month d \<le> 12
     \<and> 1 \<le> day d \<and> day d \<le> days_in_month (year d) (month d)
     \<and> hour d < 24 \<and> minute d < 60 \<and> second d < 60 \<and> microsecond d < 1000000)"

text \<open>
  Comparison of two datetimes with the same zone: field by field, as CPython compares
  them.
\<close>

definition dt_fields :: "datetime \<Rightarrow> nat list" where
  "dt_fields d = [year d, month d, day d, hour d, minute d, second d, microsecond d]"

definition dt_le :: "datetime \<Rightarrow> datetime \<Rightarrow> bool" where
  "dt_le a b = lex_le (dt_fields a) (dt_fields b)"

text \<open>
  The proleptic Gregorian ordinal of a date (\<open>toordinal\<close>, day 1 is 0001-01-01), and a
  datetime as microseconds since the start of day 0: what subtraction of datetimes and
  of a timedelta work on.
\<close>

definition days_before_year :: "nat \<Rightarrow> nat" where
  "days_before_year y = (y - 1) * 365 + (y - 1) div 4 - (y - 1) div 100 + (y - 1) div 400"

definition DAYS_BEFORE_MONTH :: "nat list" where
  "DAYS_BEFORE_MONTH = [0, 0, 31, 59, 90, 120, 151, 181, 212, 243, 273, 304, 334]"

definition days_before_month :: "nat \<Rightarrow> nat \<Rightarrow> nat" where
  "days_before_month y m = DAYS_BEFORE_MONTH ! m + (if m > 2 \<and> is_leap y then 1 else 0)"

definition ymd2ord :: "nat \<Rightarrow> nat \<Rightarrow> nat \<Rightarrow> nat" where
  "ymd2ord y m d = days_before_year y + days_before_month y m + d"

definition to_us :: "datetime \<Rightarrow> int" where
  "to_us d = int ((((ymd2ord (year d) (month d) (day d) * 24 + hour d) * 60 + minute d) * 60
                    + second d) * 1000000 + microsecond d)"

text \<open>\<open>date.fromordinal\<close>, after CPython's \<open>_ord2ymd\<close>.\<close>

definition DAYS_IN_MONTH :: "nat list" where
  "DAYS_IN_MONTH = [0, 31, 28, 31, 30, 31, 30, 31, 31, 30, 31, 30, 31]"

definition ord2ymd :: "nat \<Rightarrow> nat \<times> nat \<times> nat" where
  "ord2ymd ordinal =
     (let n = ordinal - 1;
          n400 = n div 146097; n = n mod 146097;
          n100 = n div 36524; n = n mod 36524;
          n4 = n div 1461; n = n mod 1461;
          n1 = n div 365; n = n mod 365;
          y = n400 * 400 + 1 + n100 * 100 + n4 * 4 + n1
      in if n1 = 4 \<or> n100 = 4 then (y - 1, 12, 31)
         else
           let leapyear = (n1 = 3 \<and> (n4 \<noteq> 24 \<or> n100 = 3));
               m = (n + 50) div 32;
               preceding = DAYS_BEFORE_MONTH ! m + (if m > 2 \<and> leapyear then 1 else 0)
           in if preceding > n
              then (let m' = m - 1;
                        preceding' = preceding - (DAYS_IN_MONTH ! m' + (if m' = 2 \<and> leapyear then 1 else 0))
                    in (y, m', n - preceding' + 1))
              else (y, m, n - preceding + 1))"

definition from_us :: "int \<Rightarrow> datetime" where
  "from_us x =
     (let n = nat x;
          days = n div 86400000000; r = n mod 86400000000;
          (y, m, d) = ord2ymd days
      in \<lparr> year = y, month = m, day = d,
           hour = r div 3600000000, minute = r div 60000000 mod 60,
           second = r div 1000000 mod 60, microsecond = r mod 1000000 \<rparr>)"

text \<open>\<open>d - dt.timedelta(minutes=n)\<close>.\<close>

definition minus_minutes :: "datetime \<Rightarrow> nat \<Rightarrow> datetime" where
  "minus_minutes d n = from_us (to_us d - int n * 60000000)"

text \<open>
  \<open>minutes_ago\<close>, with the clock reading \<open>now()\<close> as an argument.  The source divides
  in floating point, by \<open>10**6\<close> in \<open>total_seconds\<close> and by \<open>60.0\<close>.  At 90 minutes
  both quotients are exact (5400.0 and 90.0) and the rounding is monotone, so the
  comparison with \<open>MAX_ARTICLE_AGE_MIN\<close> has the outcome of the exact quotient, which
  the model uses.
\<close>

definition minutes_ago :: "datetime \<Rightarrow> datetime \<Rightarrow> rat" where
  "minutes_ago now ts = of_int (to_us now - to_us ts) / 1000000 / 60"

text \<open>
  \<open>isoformat()\<close> in the zone +09:00: the fraction is written only when the
  microseconds are not zero.  \<open>zpad k n\<close> is \<open>n\<close> in \<open>k\<close> decimal digits.
\<close>

fun zpad :: "nat \<Rightarrow> nat \<Rightarrow> ustr" where
  "zpad 0 n = []"
| "zpad (Suc k) n = (0x30 + n div 10 ^ k mod 10) # zpad k n"

definition isoformat :: "datetime \<Rightarrow> ustr" where
  "isoformat d =
     zpad 4 (year d) @ asc ''-'' @ zpad 2 (month d) @ asc ''-'' @ zpad 2 (day d) @ asc ''T''
     @ zpad 2 (hour d) @ asc '':'' @ zpad 2 (minute d) @ asc '':'' @ zpad 2 (second d)
     @ (if microsecond d \<noteq> 0 then asc ''.'' @ zpad 6 (microsecond d) else [])
     @ asc ''+09:00''"

text \<open>
  A parser of the two layouts \<open>isoformat\<close> writes, which rejects every other string.
  It stands in for \<open>datetime.fromisoformat\<close> where the model is evaluated at concrete
  inputs; on the strings \<open>isoformat\<close> writes the two agree.
\<close>

fun digits_val :: "nat \<Rightarrow> ustr \<Rightarrow> nat option" where
  "digits_val acc [] = Some acc"
| "digits_val acc (c # cs) =
     (if 0x30 \<le> c \<and> c \<le> 0x39 then digits_val (acc * 10 + (c - 0x30)) cs else None)"

definition field :: "ustr \<Rightarrow> nat \<Rightarrow> nat \<Rightarrow> nat option" where
  "field s pos len = digits_val 0 (take len (drop pos s))"

definition demo_fromisoformat :: "ustr \<Rightarrow> error + datetime" where
  "demo_fromisoformat s =
     (case (field s 0 4, field s 5 2, field s 8 2, field s 11 2, field s 14 2, field s 17 2) of
        (Some y, Some mo, Some d, Some h, Some mi, Some se) \<Rightarrow>
          if take 1 (drop 4 s) = asc ''-'' \<and> take 1 (drop 7 s) = asc ''-''
             \<and> take 1 (drop 10 s) = asc ''T'' \<and> take 1 (drop 13 s) = asc '':''
             \<and> take 1 (drop 16 s) = asc '':''
          then
            (let us = (if drop 19 s = asc ''+09:00'' then Some 0
                       else if take 1 (drop 19 s) = asc ''.'' \<and> drop 26 s = asc ''+09:00''
                            \<and> length s = 32
                       then field s 20 6 else None)
             in case us of
                  None \<Rightarrow> Inl ValueError
                | Some u \<Rightarrow>
                    (let r = \<lparr> year = y, month = mo, day = d, hour = h, minute = mi,
                                second = se, microsecond = u \<rparr>
                     in if valid_dt r then Inr r else Inl ValueError))
          else Inl ValueError
      | _ \<Rightarrow> Inl ValueError)"

section \<open>Event identity hasher\<close>

text \<open>
  Whitespace as \<open>str.isspace\<close>, \<open>str.strip\<close> and the \<open>\s\<close> of \<open>re\<close> on \<open>str\<close>
  patterns have it (the three use the same table).
\<close>

definition is_space :: "nat \<Rightarrow> bool" where
  "is_space c = ((9 \<le> c \<and> c \<le> 13) \<or> (28 \<le> c \<and> c \<le> 32) \<or> c = 0x85 \<or> c = 0xA0
     \<or> c = 0x1680 \<or> (0x2000 \<le> c \<and> c \<le> 0x200A) \<or> c = 0x2028 \<or> c = 0x2029
     \<or> c = 0x202F \<or> c = 0x205F \<or> c = 0x3000)"

text \<open>
  The library functions that are too large to write out are parameters of the model:
  \<open>str.lower\<close>, the word characters \<open>\w\<close> of \<open>re\<close>,
  \<open>hashlib.sha256(b).hexdigest()\<close> on a byte string, and
  \<open>datetime.fromisoformat\<close>, whose accepted layouts depend on the version of Python.
\<close>

record pylib =
  str_lower :: "ustr \<Rightarrow> ustr"
  re_word :: "nat \<Rightarrow> bool"
  sha256_hexdigest :: "nat list \<Rightarrow> ustr"
  fromisoformat :: "ustr \<Rightarrow> error + datetime"

text \<open>\<open>re.sub(r"\s+", " ", s)\<close>: every maximal run of whitespace becomes one space.\<close>

function sub_ws_runs :: "ustr \<Rightarrow> ustr" where
  "sub_ws_runs [] = []"
| "sub_ws_runs (c # cs) =
     (if is_space c then 0x20 # sub_ws_runs (dropWhile is_space cs) else c # sub_ws_runs cs)"
  by pat_completeness auto
termination
  by (relation "measure length") (auto simp: length_dropWhile_le less_Suc_eq_le)

text \<open>
  The characters that \<open>re.sub(r"[^\w\<dots>%+\<dots>\-\<dots>\s]", "", s)\<close> keeps: word characters,
  Hangul syllables U+AC00..U+D7A3, percent, plus, en dash, em dash, hyphen-minus,
  middle dot and whitespace.
\<close>

definition kept_char :: "pylib \<Rightarrow> nat \<Rightarrow> bool" where
  "kept_char L c = (re_word L c \<or> (0xAC00 \<le> c \<and> c \<le> 0xD7A3) \<or> c = 0x25 \<or> c = 0x2B
     \<or> c = 0x2013 \<or> c = 0x2014 \<or> c = 0x2D \<or> c = 0xB7 \<or> is_space c)"

definition strip :: "ustr \<Rightarrow> ustr" where
  "strip s = rev (dropWhile is_space (rev (dropWhile is_space s)))"

definition normalize_title :: "pylib \<Rightarrow> ustr \<Rightarrow> ustr" where
  "normalize_title L s =
     (let s1 = str_lower L s;
          s2 = sub_ws_runs s1;
          s3 = filter (kept_char L) s2
      in strip s3)"

text \<open>
  \<open>str.encode("utf-8")\<close>: a lone surrogate cannot be encoded and raises
  \<open>UnicodeEncodeError\<close>.  A Python string has no code point above U+10FFFF.
\<close>

definition utf8_char :: "nat \<Rightarrow> nat list option" where
  "utf8_char c =
     (if c < 0x80 then Some [c]
      else if c < 0x800 then Some [0xC0 + c div 64, 0x80 + c mod 64]
      else if 0xD800 \<le> c \<and> c \<le> 0xDFFF then None
      else if c < 0x10000 then Some [0xE0 + c div 4096, 0x80 + c div 64 mod 64, 0x80 + c mod 64]
      else if c < 0x110000 then
        Some [0xF0 + c div 262144, 0x80 + c div 4096 mod 64, 0x80 + c div 64 mod 64, 0x80 + c mod 64]
      else None)"

fun utf8_encode :: "ustr \<Rightarrow> nat list option" where
  "utf8_encode [] = Some []"
| "utf8_encode (c # cs) =
     (case utf8_char c of None \<Rightarrow> None
      | Some bs \<Rightarrow> (case utf8_encode cs of None \<Rightarrow> None | Some r \<Rightarrow> Some (bs @ r)))"

text \<open>A string that \<open>str.encode("utf-8")\<close> accepts.\<close>

definition encodable :: "ustr \<Rightarrow> bool" where
  "encodable s = (utf8_encode s \<noteq> None)"

text \<open>
  \<open>make_hash\<close>.  The url may be \<open>None\<close>: \<open>url or ""\<close> turns it into the empty
  string.  \<open>h[:24]\<close> is \<open>take 24\<close>.
\<close>

definition or_empty :: "ustr option \<Rightarrow> ustr" where
  "or_empty url = (case url of None \<Rightarrow> [] | Some u \<Rightarrow> u)"

definition hash_base :: "pylib \<Rightarrow> ustr \<Rightarrow> ustr option \<Rightarrow> ustr" where
  "hash_base L title url = normalize_title L title @ asc ''|'' @ or_empty url"

definition make_hash :: "pylib \<Rightarrow> ustr \<Rightarrow> ustr option \<Rightarrow> error + ustr" where
  "make_hash L title url =
     (let base = hash_base L title url in
      case utf8_encode base of
        None \<Rightarrow> Inl UnicodeEncodeError
      | Some bs \<Rightarrow> (let h = sha256_hexdigest L bs in Inr (take 24 h)))"

text \<open>
  What the documentation of \<open>hashlib\<close> says of a SHA-256 hex digest: 64 characters,
  each one of \<open>0123456789abcdef\<close>.
\<close>

definition is_hex :: "nat \<Rightarrow> bool" where
  "is_hex c = ((0x30 \<le> c \<and> c \<le> 0x39) \<or> (0x61 \<le> c \<and> c \<le> 0x66))"

definition hexdigest_ok :: "pylib \<Rightarrow> bool" where
  "hexdigest_ok L = (\<forall>bs. length (sha256_hexdigest L bs) = 64 \<and> list_all is_hex (sha256_hexdigest L bs))"

text \<open>
  No word character of \<open>re\<close> is a lone surrogate, and no code point of a Python
  string exceeds U+10FFFF: every word character can be encoded.
\<close>

definition word_encodable :: "pylib \<Rightarrow> bool" where
  "word_encodable L = (\<forall>c. re_word L c \<longrightarrow> utf8_char c \<noteq> None)"

text \<open>
  Two titles differ only in their whitespace runs when one is obtained from the other
  by exchanging a whitespace character for another one, by lengthening or shortening
  a run of whitespace, or by adding or removing whitespace at either end.
\<close>

inductive ws_variant :: "ustr \<Rightarrow> ustr \<Rightarrow> bool" where
  same: "ws_variant s s"
| other: "is_space a \<Longrightarrow> is_space b \<Longrightarrow> ws_variant (xs @ a # ys) (xs @ b # ys)"
| longer: "is_space a \<Longrightarrow> is_space b \<Longrightarrow> ws_variant (xs @ a # ys) (xs @ a # b # ys)"
| leading: "is_space a \<Longrightarrow> ws_variant s (a # s)"
| trailing: "is_space a \<Longrightarrow> ws_variant s (s @ [a])"
| sym: "ws_variant s t \<Longrightarrow> ws_variant t s"
| trans: "ws_variant s t \<Longrightarrow> ws_variant t u \<Longrightarrow> ws_variant s u"

text \<open>
  What \<open>str.lower\<close> does at whitespace: a whitespace character has no case and is
  copied, and the text before it and the text after it are lower-cased apart.  (Its one
  rule that looks at neighbouring characters, the final sigma, looks across
  case-ignorable characters only, and no whitespace character is case-ignorable.)
\<close>

definition lower_ws_local :: "pylib \<Rightarrow> bool" where
  "lower_ws_local L = (str_lower L [] = []
     \<and> (\<forall>a c b. is_space c \<longrightarrow> str_lower L (a @ c # b) = str_lower L a @ c # str_lower L b))"

text \<open>
  What the documentation says of \<open>datetime.fromisoformat\<close>: it is the inverse of
  \<open>isoformat\<close>.
\<close>

definition fromisoformat_ok :: "pylib \<Rightarrow> bool" where
  "fromisoformat_ok L = (\<forall>d. valid_dt d \<longrightarrow> fromisoformat L (isoformat d) = Inr d)"

text \<open>
  An instance of the library parameters, for evaluating the model at concrete inputs.
  Its lower-casing and its word characters are those of CPython on strings of ASCII
  characters and Hangul syllables.  Its digest is a stand-in with the shape of a
  SHA-256 hex digest (the hexadecimal digits of the first 32 bytes, filled with zeros),
  not SHA-256 itself.
\<close>

definition hexdigit :: "nat \<Rightarrow> nat" where
  "hexdigit d = (if d < 10 then 0x30 + d else 0x57 + d)"

definition demo_digest :: "nat list \<Rightarrow> ustr" where
  "demo_digest bs =
     take 64 (concat (map (\<lambda>b. [hexdigit (b div 16 mod 16), hexdigit (b mod 16)]) bs) @ replicate 64 0x30)"

definition demo_lib :: pylib where
  "demo_lib = \<lparr>
     str_lower = map (\<lambda>c. if 0x41 \<le> c \<and> c \<le> 0x5A then c + 32 else c),
     re_word = (\<lambda>c. (0x30 \<le> c \<and> c \<le> 0x39) \<or> (0x41 \<le> c \<and> c \<le> 0x5A) \<or> c = 0x5F
                  \<or> (0x61 \<le> c \<and> c \<le> 0x7A) \<or> (0xAC00 \<le> c \<and> c \<le> 0xD7A3)),
     sha256_hexdigest = demo_digest,
     fromisoformat = demo_fromisoformat \<rparr>"

section \<open>State and persistence\<close>

text \<open>
  An \<open>Item\<close> (the \<open>raw\<close> field, which nothing reads, is left out), and an entry of the
  digest buffer: the dictionary with the keys \<open>ts\<close>, \<open>src\<close>, \<open>stock\<close>, \<open>title\<close>,
  \<open>url\<close>, whose timestamp is a string.
\<close>

record item =
  ts :: datetime
  source :: ustr
  stock :: ustr
  title :: ustr
  url :: ustr

record entry =
  d_ts :: ustr
  d_src :: ustr
  d_stock :: ustr
  d_title :: ustr
  d_url :: ustr

text \<open>The state dictionary of \<open>main\<close>, with its three keys.\<close>

record state =
  seen_hashes :: "ustr list"
  digest_buffer :: "entry list"
  last_digest_unix :: int


text \<open>
  The values \<open>json.dump\<close> writes and \<open>json.load\<close> returns.  The state file is absent,
  or holds text that \<open>json.load\<close> rejects, or holds the text of a JSON value.
\<close>

datatype json = JNull | JBool bool | JInt int | JStr ustr | JArr "json list" | JObj "(ustr \<times> json) list"

datatype file_text = Malformed | Wellformed json

type_synonym state_file = "file_text option"

definition entry_json :: "entry \<Rightarrow> json" where
  "entry_json d = JObj [(asc ''ts'', JStr (d_ts d)), (asc ''src'', JStr (d_src d)),
     (asc ''stock'', JStr (d_stock d)), (asc ''title'', JStr (d_title d)),
     (asc ''url'', JStr (d_url d))]"

definition state_json :: "state \<Rightarrow> json" where
  "state_json st = JObj [(asc ''seen_hashes'', JArr (map JStr (seen_hashes st))),
     (asc ''digest_buffer'', JArr (map entry_json (digest_buffer st))),
     (asc ''last_digest_unix'', JInt (last_digest_unix st))]"


text \<open>
  \<open>save_state\<close>.  Opening the file for writing empties it; \<open>json.dump\<close> with
  \<open>ensure_ascii=False\<close> then writes the text piece by piece, each piece encoded as
  UTF-8.  A string with a lone surrogate raises \<open>UnicodeEncodeError\<close> at its piece, and
  the file keeps the pieces before it: the beginning of a dictionary, which \<open>json.load\<close>
  rejects.  The result is the exception raised, if any, and the file left behind.  (The
  keys are ASCII.)
\<close>

definition entry_encodable :: "entry \<Rightarrow> bool" where
  "entry_encodable d = (encodable (d_ts d) \<and> encodable (d_src d) \<and> encodable (d_stock d)
     \<and> encodable (d_title d) \<and> encodable (d_url d))"

definition state_encodable :: "state \<Rightarrow> bool" where
  "state_encodable st = (list_all encodable (seen_hashes st)
     \<and> list_all entry_encodable (digest_buffer st))"

definition save_state :: "state \<Rightarrow> error option \<times> state_file" where
  "save_state st =
     (if state_encodable st then (None, Some (Wellformed (state_json st)))
      else (Some UnicodeEncodeError, Some Malformed))"

text \<open>
  The state that a dictionary read from the file stands for: a dictionary with the three
  keys, a list of strings, a list of entries with their five strings, and an integer.
  \<open>None\<close> is a JSON value of another shape; what \<open>main\<close> does with one is outside the
  model.  (Of a key written twice, \<open>json.load\<close> keeps the last value.)
\<close>

fun str_of :: "json \<Rightarrow> ustr option" where
  "str_of (JStr s) = Some s"
| "str_of _ = None"

fun strs_of :: "json list \<Rightarrow> ustr list option" where
  "strs_of [] = Some []"
| "strs_of (j # js) =
     (case (str_of j, strs_of js) of (Some s, Some ss) \<Rightarrow> Some (s # ss) | _ \<Rightarrow> None)"

definition get_str :: "(ustr \<times> json) list \<Rightarrow> ustr \<Rightarrow> ustr option" where
  "get_str kvs k = (case map_of (rev kvs) k of None \<Rightarrow> None | Some j \<Rightarrow> str_of j)"

definition json_entry :: "json \<Rightarrow> entry option" where
  "json_entry j =
     (case j of
        JObj kvs \<Rightarrow>
          (case (get_str kvs (asc ''ts''), get_str kvs (asc ''src''), get_str kvs (asc ''stock''),
                 get_str kvs (asc ''title''), get_str kvs (asc ''url'')) of
             (Some t, Some s, Some k, Some ti, Some u) \<Rightarrow>
               Some \<lparr> d_ts = t, d_src = s, d_stock = k, d_title = ti, d_url = u \<rparr>
           | _ \<Rightarrow> None)
      | _ \<Rightarrow> None)"

fun json_entries :: "json list \<Rightarrow> entry list option" where
  "json_entries [] = Some []"
| "json_entries (j # js) =
     (case (json_entry j, json_entries js) of (Some d, Some ds) \<Rightarrow> Some (d # ds) | _ \<Rightarrow> None)"

definition json_state :: "json \<Rightarrow> state option" where
  "json_state j =
     (case j of
        JObj kvs \<Rightarrow>
          (case (map_of (rev kvs) (asc ''seen_hashes''), map_of (rev kvs) (asc ''digest_buffer''),
                 map_of (rev kvs) (asc ''last_digest_unix'')) of
             (Some (JArr hs), Some (JArr ds), Some (JInt n)) \<Rightarrow>
               (case (strs_of hs, json_entries ds) of
                  (Some seen, Some buf) \<Rightarrow>
                    Some \<lparr> seen_hashes = seen, digest_buffer = buf, last_digest_unix = n \<rparr>
                | _ \<Rightarrow> None)
           | _ \<Rightarrow> None)
      | _ \<Rightarrow> None)"


section \<open>Deduplication store\<close>

text \<open>
  \<open>state["seen_hashes"].append(h)\<close> followed by \<open>state["seen_hashes"][-8000:]\<close>; the
  slice keeps the last 8000 elements, or all of a shorter list.
\<close>

definition last_n :: "nat \<Rightarrow> 'a list \<Rightarrow> 'a list" where
  "last_n n xs = drop (length xs - n) xs"

definition record_fp :: "ustr list \<Rightarrow> ustr \<Rightarrow> ustr list" where
  "record_fp seen h = last_n 8000 (seen @ [h])"

text \<open>The membership test and the recording, as the loops of \<open>main\<close> combine them.\<close>

definition feed :: "ustr list \<Rightarrow> ustr \<Rightarrow> ustr list" where
  "feed seen h = (if h \<in> set seen then seen else record_fp seen h)"

section \<open>One cycle of the main loop\<close>

definition MAX_ARTICLE_AGE_MIN :: nat where "MAX_ARTICLE_AGE_MIN = 90"
definition DIGEST_INTERVAL_MIN :: nat where "DIGEST_INTERVAL_MIN = 60"

text \<open>
  The inputs of a cycle are what the adapters return and what the clock reads.  A call of
  \<open>fetch_google_news\<close> or \<open>fetch_dart_list_by_name\<close> either raises (\<open>None\<close>) or returns
  items; every item comes with the reading of \<open>now()\<close> at its age check in \<open>main\<close>.
  The lists \<open>news\<close> and \<open>dart\<close> hold one such result per stock of \<open>WATCH_LIST\<close>.
\<close>

type_synonym fetched = "(item \<times> datetime) list option"

record cycle_in =
  news :: "fetched list"
  dart :: "fetched list"
  now_cutoff :: datetime
  now_unix :: int
  now_cutoff2 :: datetime

text \<open>
  The body of the two \<open>for it in fetch\<dots>(stock)\<close> loops.  An exception of \<open>make_hash\<close>
  reaches the \<open>except\<close> around the loop, which ends the loop for this stock; what was
  recorded before stays.
\<close>

fun ingest :: "pylib \<Rightarrow> (item \<times> datetime) list \<Rightarrow> ustr list \<times> item list \<Rightarrow> ustr list \<times> item list" where
  "ingest L [] acc = acc"
| "ingest L ((it, now) # rest) (seen, newly) =
     (if minutes_ago now (ts it) > of_nat MAX_ARTICLE_AGE_MIN then ingest L rest (seen, newly)
      else case make_hash L (title it) (Some (url it)) of
             Inl e \<Rightarrow> (seen, newly)
           | Inr h \<Rightarrow>
               if h \<in> set seen then ingest L rest (seen, newly)
               else ingest L rest (record_fp seen h, newly @ [it]))"

fun ingest_all :: "pylib \<Rightarrow> fetched list \<Rightarrow> ustr list \<times> item list \<Rightarrow> ustr list \<times> item list" where
  "ingest_all L [] acc = acc"
| "ingest_all L (None # fs) acc = ingest_all L fs acc"
| "ingest_all L (Some xs # fs) acc = ingest_all L fs (ingest L xs acc)"

definition novel :: "pylib \<Rightarrow> cycle_in \<Rightarrow> ustr list \<Rightarrow> ustr list \<times> item list" where
  "novel L inp seen = ingest_all L (dart inp) (ingest_all L (news inp) (seen, []))"

text \<open>
  Messages, and what becomes of them.  The text of a message is not modelled: an alert is
  its tag and its item, a digest is the summary.  \<open>deliver\<close> is \<open>send_telegram\<close> (false
  when it raises), \<open>summarize\<close> is \<open>gpt_digest_summarize\<close> (\<open>None\<close> when it raises).
\<close>

datatype message = Alert ustr item | Digest ustr

record env =
  deliver :: "message \<Rightarrow> bool"
  summarize :: "item list \<Rightarrow> ustr option"

datatype event = Sent message | SendFailed message | SummaryFailed

definition send :: "env \<Rightarrow> message \<Rightarrow> event" where
  "send E m = (if deliver E m then Sent m else SendFailed m)"

definition is_strong :: "ustr \<Rightarrow> bool" where
  "is_strong cat = (cat = BEAR_STRONG \<or> cat = BULL_STRONG)"

definition tag_of :: "ustr \<Rightarrow> ustr" where
  "tag_of cat = (if str_contains cat TAG_BEAR then TAG_BEAR else TAG_BULL)"

definition alert_messages :: "item list \<Rightarrow> message list" where
  "alert_messages newly =
     map (\<lambda>it. Alert (tag_of (classify_sentiment (title it))) it)
       (filter (\<lambda>it. is_strong (classify_sentiment (title it))) newly)"

text \<open>The digest buffer: the pruning compares strings, the adding compares datetimes.\<close>

definition prune_buffer :: "datetime \<Rightarrow> entry list \<Rightarrow> entry list" where
  "prune_buffer cutoff buf = filter (\<lambda>d. d_ts d \<noteq> [] \<and> lex_le (isoformat cutoff) (d_ts d)) buf"

definition entry_of :: "item \<Rightarrow> entry" where
  "entry_of it = \<lparr> d_ts = isoformat (ts it), d_src = source it, d_stock = stock it,
     d_title = title it, d_url = url it \<rparr>"

definition buffer_add :: "datetime \<Rightarrow> item list \<Rightarrow> entry list" where
  "buffer_add cutoff newly = map entry_of (filter (\<lambda>it. dt_le cutoff (ts it)) newly)"

text \<open>
  The digest.  \<open>fromisoformat\<close> is outside every \<open>try\<close>: an exception it raises ends
  the process.  \<open>items.sort(key=lambda x: (x.stock, x.ts))\<close> is a stable sort.
\<close>

fun items_of :: "pylib \<Rightarrow> entry list \<Rightarrow> error + item list" where
  "items_of L [] = Inr []"
| "items_of L (d # ds) =
     (case fromisoformat L (d_ts d) of
        Inl e \<Rightarrow> Inl e
      | Inr t \<Rightarrow>
          (case items_of L ds of
             Inl e \<Rightarrow> Inl e
           | Inr xs \<Rightarrow> Inr (\<lparr> ts = t, source = d_src d, stock = d_stock d, title = d_title d,
                                url = d_url d \<rparr> # xs)))"

definition item_key_le :: "item \<Rightarrow> item \<Rightarrow> bool" where
  "item_key_le x y = ((stock x \<noteq> stock y \<and> lex_le (stock x) (stock y))
     \<or> (stock x = stock y \<and> dt_le (ts x) (ts y)))"

fun insert_item :: "item \<Rightarrow> item list \<Rightarrow> item list" where
  "insert_item x [] = [x]"
| "insert_item x (y # ys) = (if item_key_le x y then x # y # ys else y # insert_item x ys)"

fun sort_items :: "item list \<Rightarrow> item list" where
  "sort_items [] = []"
| "sort_items (x # xs) = insert_item x (sort_items xs)"

definition need_digest :: "int \<Rightarrow> int \<Rightarrow> entry list \<Rightarrow> bool" where
  "need_digest unix last_unix buf =
     (unix - last_unix \<ge> int DIGEST_INTERVAL_MIN * 60 \<and> length buf > 0)"

definition digest_events :: "env \<Rightarrow> datetime \<Rightarrow> item list \<Rightarrow> event list" where
  "digest_events E cutoff2 items =
     (let items' = filter (\<lambda>x. dt_le cutoff2 (ts x)) items in
      if items' = [] then []
      else case summarize E (sort_items items') of
             None \<Rightarrow> [SummaryFailed]
           | Some summary \<Rightarrow> [send E (Digest summary)])"

text \<open>
  A cycle, up to \<open>save_state\<close>: the new state and what was sent, or the exception that
  ends the process.
\<close>

definition cycle :: "pylib \<Rightarrow> env \<Rightarrow> cycle_in \<Rightarrow> state \<Rightarrow> error + state \<times> event list" where
  "cycle L E inp st =
     (let (seen, newly) = novel L inp (seen_hashes st);
          alerts = map (send E) (alert_messages newly);
          cutoff = minus_minutes (now_cutoff inp) DIGEST_INTERVAL_MIN;
          buf = prune_buffer cutoff (digest_buffer st) @ buffer_add cutoff newly
      in if need_digest (now_unix inp) (last_digest_unix st) buf
         then (case items_of L buf of
                 Inl e \<Rightarrow> Inl e
               | Inr items \<Rightarrow>
                   (let cutoff2 = minus_minutes (now_cutoff2 inp) DIGEST_INTERVAL_MIN
                    in Inr (\<lparr> seen_hashes = seen, digest_buffer = [],
                               last_digest_unix = now_unix inp \<rparr>,
                            alerts @ digest_events E cutoff2 items)))
         else Inr (\<lparr> seen_hashes = seen, digest_buffer = buf,
                      last_digest_unix = last_digest_unix st \<rparr>, alerts))"

text \<open>
  The loop of \<open>main\<close> over a finite run of cycles.  Each cycle ends with
  \<open>save_state\<close>, outside every \<open>try\<close>: an exception it raises ends the process.
\<close>

fun run :: "pylib \<Rightarrow> (env \<times> cycle_in) list \<Rightarrow> state \<Rightarrow> error + state \<times> event list" where
  "run L [] st = Inr (st, [])"
| "run L ((E, inp) # rest) st =
     (case cycle L E inp st of
        Inl e \<Rightarrow> Inl e
      | Inr (st1, evs) \<Rightarrow>
          (case fst (save_state st1) of
             Some e \<Rightarrow> Inl e
           | None \<Rightarrow>
               (case run L rest st1 of
                  Inl e \<Rightarrow> Inl e
                | Inr (st2, evs2) \<Rightarrow> Inr (st2, evs @ evs2))))"

section \<open>Sample inputs\<close>

text \<open>
  Inputs at which the theorems are evaluated: a time of day on 2024-03-01 and the Unix
  time of that day's seconds (12:00:00 +09:00 is 1709262000), an item of the news feed, a
  cycle that fetches the given items and reads the given clock, and the two extremes of
  the outside services.
\<close>

definition at_time :: "nat \<Rightarrow> nat \<Rightarrow> nat \<Rightarrow> nat \<Rightarrow> datetime" where
  "at_time h m s us = \<lparr> year = 2024, month = 3, day = 1, hour = h, minute = m, second = s,
     microsecond = us \<rparr>"

definition unix_at :: "nat \<Rightarrow> nat \<Rightarrow> nat \<Rightarrow> int" where
  "unix_at h m s = 1709218800 + int ((h * 60 + m) * 60 + s)"

definition sample_item :: "datetime \<Rightarrow> ustr \<Rightarrow> item" where
  "sample_item t ti = \<lparr> ts = t, source = asc ''news'', stock = asc ''S'', title = ti,
     url = asc ''http://x'' \<rparr>"

definition sample_in :: "(item \<times> datetime) list \<Rightarrow> datetime \<Rightarrow> int \<Rightarrow> cycle_in" where
  "sample_in xs t unix = \<lparr> news = [Some xs], dart = [Some []], now_cutoff = t, now_unix = unix,
     now_cutoff2 = t \<rparr>"

definition env_up :: env where
  "env_up = \<lparr> deliver = (\<lambda>m. True), summarize = (\<lambda>xs. Some (asc ''summary'')) \<rparr>"

definition env_down :: env where
  "env_down = \<lparr> deliver = (\<lambda>m. False), summarize = (\<lambda>xs. None) \<rparr>"

section \<open>Auxiliary functions of the proofs\<close>

text \<open>
  \<open>sub_ws_runs\<close> as one pass over the string; the flag says whether the previous
  character was whitespace.
\<close>

fun coll :: "bool \<Rightarrow> ustr \<Rightarrow> ustr" where
  "coll r [] = []"
| "coll r (c # cs) =
     (if is_space c then (if r then coll True cs else 0x20 # coll True cs)
      else c # coll False cs)"

text \<open>The steps of \<open>normalize_title\<close> after the lower-casing.\<close>

definition norm_tail :: "pylib \<Rightarrow> ustr \<Rightarrow> ustr" where
  "norm_tail L s = strip (filter (kept_char L) (sub_ws_runs s))"

text \<open>The first code point of a UTF-8 byte string and the bytes after it.\<close>

fun utf8_first :: "nat list \<Rightarrow> nat \<times> nat list" where
  "utf8_first [] = (0, [])"
| "utf8_first (b0 # bs) =
     (if b0 < 0x80 then (b0, bs)
      else if b0 < 0xE0 then
        (case bs of b1 # r \<Rightarrow> ((b0 - 0xC0) * 64 + (b1 - 0x80), r) | _ \<Rightarrow> (0, []))
      else if b0 < 0xF0 then
        (case bs of b1 # b2 # r \<Rightarrow> (((b0 - 0xE0) * 64 + (b1 - 0x80)) * 64 + (b2 - 0x80), r)
         | _ \<Rightarrow> (0, []))
      else
        (case bs of b1 # b2 # b3 # r \<Rightarrow>
           ((((b0 - 0xF0) * 64 + (b1 - 0x80)) * 64 + (b2 - 0x80)) * 64 + (b3 - 0x80), r)
         | _ \<Rightarrow> (0, [])))"

text \<open>The end of an \<open>isoformat\<close> string: the optional fraction and the zone.\<close>

definition frac_tz :: "datetime \<Rightarrow> ustr" where
  "frac_tz d = (if microsecond d \<noteq> 0 then asc ''.'' @ zpad 6 (microsecond d) else []) @ asc ''+09:00''"

text \<open>Days of a year, the dates of the calendar, and the ordinal of a datetime's date.\<close>

definition days_in_year :: "nat \<Rightarrow> nat" where
  "days_in_year y = (if is_leap y then 366 else 365)"

definition valid_date :: "nat \<Rightarrow> nat \<Rightarrow> nat \<Rightarrow> bool" where
  "valid_date y m d = (1 \<le> y \<and> 1 \<le> m \<and> m \<le> 12 \<and> 1 \<le> d \<and> d \<le> days_in_month y m)"

definition date_ord :: "datetime \<Rightarrow> nat" where
  "date_ord a = ymd2ord (year a) (month a) (day a)"

section \<open>Substring test\<close>

lemma startswith_iff: "startswith t k \<longleftrightarrow> (\<exists>post. t = k @ post)"
  by (induction t k rule: startswith.induct) auto

lemma str_contains_iff: "str_contains t k \<longleftrightarrow> occurs_in k t"
proof (induction t)
  case Nil
  show ?case by (auto simp: occurs_in_def)
next
  case (Cons c cs)
  show ?case
  proof
    assume "str_contains (c # cs) k"
    then consider "startswith (c # cs) k" | "str_contains cs k" by auto
    then show "occurs_in k (c # cs)"
    proof cases
      case 1
      then obtain post where "c # cs = k @ post" by (auto simp: startswith_iff)
      then have "c # cs = [] @ k @ post" by simp
      then show ?thesis unfolding occurs_in_def by blast
    next
      case 2
      with Cons obtain pre post where "cs = pre @ k @ post" by (auto simp: occurs_in_def)
      then have "c # cs = (c # pre) @ k @ post" by simp
      then show ?thesis unfolding occurs_in_def by blast
    qed
  next
    assume "occurs_in k (c # cs)"
    then obtain pre post where eq: "c # cs = pre @ k @ post" by (auto simp: occurs_in_def)
    show "str_contains (c # cs) k"
    proof (cases pre)
      case Nil
      with eq have "startswith (c # cs) k" by (auto simp: startswith_iff)
      then show ?thesis by simp
    next
      case (Cons p ps)
      with eq have "cs = ps @ k @ post" by simp
      then have "occurs_in k cs" unfolding occurs_in_def by blast
      with Cons.IH show ?thesis by simp
    qed
  qed
qed

lemma contains_any_iff: "contains_any t keys \<longleftrightarrow> (\<exists>k \<in> set keys. occurs_in k t)"
  by (simp add: contains_any_def str_contains_iff)

lemma contains_any_Nil: "[] \<notin> set keys \<Longrightarrow> \<not> contains_any [] keys"
  by (auto simp: contains_any_def)

lemma no_empty_keyword:
  "[] \<notin> set BEAR_KEYS_STRONG" "[] \<notin> set BULL_KEYS_STRONG"
  "[] \<notin> set BEAR_KEYS" "[] \<notin> set BULL_KEYS"
  by (simp_all add: BEAR_KEYS_def BULL_KEYS_def BEAR_KEYS_STRONG_def BULL_KEYS_STRONG_def)

section \<open>Classifier priority\<close>

text \<open>
  Claim C5.  \<open>classify_sentiment\<close> tries the four keyword collections in the order
  strong bear, strong bull, bear, bull, and returns the label of the first one that has
  a keyword occurring as a substring of the title as given (no lowercasing, no
  normalisation); with no hit the label is neutral.  Hence a title in which a strong
  bear keyword and a strong bull keyword both occur is labelled strong bear, and the
  empty title and every title without a keyword are labelled neutral.
\<close>

theorem classify_sentiment_priority:
  "classify_sentiment t =
     (if \<exists>k \<in> set BEAR_KEYS_STRONG. occurs_in k t then BEAR_STRONG
      else if \<exists>k \<in> set BULL_KEYS_STRONG. occurs_in k t then BULL_STRONG
      else if \<exists>k \<in> set BEAR_KEYS. occurs_in k t then BEAR_WEAK
      else if \<exists>k \<in> set BULL_KEYS. occurs_in k t then BULL_WEAK
      else NEUTRAL)
   \<and> (kb \<in> set BEAR_KEYS_STRONG \<and> occurs_in kb t \<and> ku \<in> set BULL_KEYS_STRONG \<and> occurs_in ku t
        \<longrightarrow> classify_sentiment t = BEAR_STRONG)
   \<and> classify_sentiment [] = NEUTRAL
   \<and> ((\<forall>k \<in> set (BEAR_KEYS @ BULL_KEYS). \<not> occurs_in k t) \<longrightarrow> classify_sentiment t = NEUTRAL)"
proof (intro conjI)
  show c1: "classify_sentiment t =
     (if \<exists>k \<in> set BEAR_KEYS_STRONG. occurs_in k t then BEAR_STRONG
      else if \<exists>k \<in> set BULL_KEYS_STRONG. occurs_in k t then BULL_STRONG
      else if \<exists>k \<in> set BEAR_KEYS. occurs_in k t then BEAR_WEAK
      else if \<exists>k \<in> set BULL_KEYS. occurs_in k t then BULL_WEAK
      else NEUTRAL)"
    by (simp only: classify_sentiment_def Let_def contains_any_iff)
  show "kb \<in> set BEAR_KEYS_STRONG \<and> occurs_in kb t \<and> ku \<in> set BULL_KEYS_STRONG \<and> occurs_in ku t
        \<longrightarrow> classify_sentiment t = BEAR_STRONG"
    using c1 by auto
  show "classify_sentiment [] = NEUTRAL"
    by (simp add: classify_sentiment_def contains_any_Nil no_empty_keyword)
  have "set BEAR_KEYS_STRONG \<subseteq> set BEAR_KEYS" "set BULL_KEYS_STRONG \<subseteq> set BULL_KEYS"
    by (auto simp: BEAR_KEYS_def BULL_KEYS_def)
  then show "(\<forall>k \<in> set (BEAR_KEYS @ BULL_KEYS). \<not> occurs_in k t) \<longrightarrow> classify_sentiment t = NEUTRAL"
    using c1 by auto
qed


theorem classify_sentiment_priority_witness:
  "[0xC720, 0xC0C1, 0xC99D, 0xC790] \<in> set BEAR_KEYS_STRONG
   \<and> occurs_in [0xC720, 0xC0C1, 0xC99D, 0xC790]
        [0xC720, 0xC0C1, 0xC99D, 0xC790, 0x20, 0xBB34, 0xC0C1, 0xC99D, 0xC790]
   \<and> [0xBB34, 0xC0C1, 0xC99D, 0xC790] \<in> set BULL_KEYS_STRONG
   \<and> occurs_in [0xBB34, 0xC0C1, 0xC99D, 0xC790]
        [0xC720, 0xC0C1, 0xC99D, 0xC790, 0x20, 0xBB34, 0xC0C1, 0xC99D, 0xC790]
   \<and> classify_sentiment [0xC720, 0xC0C1, 0xC99D, 0xC790, 0x20, 0xBB34, 0xC0C1, 0xC99D, 0xC790]
        = BEAR_STRONG
   \<and> classify_sentiment (asc ''abc'') = NEUTRAL"
proof -
  let ?t = "[0xC720, 0xC0C1, 0xC99D, 0xC790, 0x20, 0xBB34, 0xC0C1, 0xC99D, 0xC790] :: ustr"
  let ?kb = "[0xC720, 0xC0C1, 0xC99D, 0xC790] :: ustr"
  let ?ku = "[0xBB34, 0xC0C1, 0xC99D, 0xC790] :: ustr"
  have h1: "?kb \<in> set BEAR_KEYS_STRONG" by (simp add: BEAR_KEYS_STRONG_def)
  have h2: "occurs_in ?kb ?t" by (simp add: str_contains_iff [symmetric])
  have h3: "?ku \<in> set BULL_KEYS_STRONG" by (simp add: BULL_KEYS_STRONG_def)
  have h4: "occurs_in ?ku ?t" by (simp add: str_contains_iff [symmetric])
  have h5: "\<forall>k \<in> set (BEAR_KEYS @ BULL_KEYS). \<not> occurs_in k (asc ''abc'')"
    by (simp add: str_contains_iff [symmetric] asc_def BEAR_KEYS_def BULL_KEYS_def
        BEAR_KEYS_STRONG_def BULL_KEYS_STRONG_def)
  from classify_sentiment_priority [of ?t ?kb ?ku] h1 h2 h3 h4
  have a: "classify_sentiment ?t = BEAR_STRONG" by blast
  from classify_sentiment_priority [of "asc ''abc''"] h5
  have b: "classify_sentiment (asc ''abc'') = NEUTRAL" by blast
  from h1 h2 h3 h4 a b show ?thesis by blast
qed

section \<open>Title normalisation\<close>

lemma coll_sub: "coll False s = sub_ws_runs s \<and> coll True s = sub_ws_runs (dropWhile is_space s)"
  by (induction s) auto

lemma sub_ws_runs_coll: "sub_ws_runs s = coll False s"
  by (simp add: coll_sub)

lemma coll_other: "is_space a \<Longrightarrow> is_space b \<Longrightarrow> coll r (xs @ a # ys) = coll r (xs @ b # ys)"
  by (induction xs arbitrary: r) auto

lemma coll_longer: "is_space a \<Longrightarrow> is_space b \<Longrightarrow> coll r (xs @ a # b # ys) = coll r (xs @ a # ys)"
  by (induction xs arbitrary: r) auto

lemma coll_trailing:
  "is_space a \<Longrightarrow> coll r (s @ [a]) = coll r s \<or> coll r (s @ [a]) = coll r s @ [0x20]"
  by (induction s arbitrary: r) auto

lemma sub_leading:
  "is_space a \<Longrightarrow> sub_ws_runs (a # s) = sub_ws_runs s \<or> sub_ws_runs (a # s) = 0x20 # sub_ws_runs s"
  by (cases s) auto

lemma is_space_32: "is_space 0x20" by (simp add: is_space_def)

lemma kept_space: "is_space c \<Longrightarrow> kept_char L c" by (simp add: kept_char_def)

lemma strip_leading: "is_space c \<Longrightarrow> strip (c # y) = strip y"
  by (simp add: strip_def)

lemma strip_trailing:
  assumes "is_space c"
  shows "strip (y @ [c]) = strip y"
proof (cases "\<forall>x \<in> set y. is_space x")
  case True
  then have e: "dropWhile is_space y = []" by simp
  from True assms have e2: "dropWhile is_space (y @ [c]) = []" by simp
  show ?thesis unfolding strip_def e e2 by simp
next
  case False
  with assms show ?thesis by (auto simp: strip_def dropWhile_append)
qed

lemma ws_variant_norm: "ws_variant s t \<Longrightarrow> norm_tail L s = norm_tail L t"
proof (induction rule: ws_variant.induct)
  case (same s)
  show ?case by simp
next
  case (other a b xs ys)
  then show ?case by (simp add: norm_tail_def sub_ws_runs_coll coll_other [of a b])
next
  case (longer a b xs ys)
  then show ?case by (simp add: norm_tail_def sub_ws_runs_coll coll_longer [of a b])
next
  case (leading a s)
  from sub_leading [OF leading, of s]
  consider (a) "sub_ws_runs (a # s) = sub_ws_runs s"
    | (b) "sub_ws_runs (a # s) = 0x20 # sub_ws_runs s" by blast
  then show ?case
  proof cases
    case a
    then show ?thesis by (simp only: norm_tail_def)
  next
    case b
    have "strip (filter (kept_char L) (0x20 # sub_ws_runs s)) = strip (filter (kept_char L) (sub_ws_runs s))"
      by (simp add: kept_space is_space_32 strip_leading)
    with b show ?thesis by (simp only: norm_tail_def)
  qed
next
  case (trailing a s)
  from coll_trailing [OF trailing, of False s]
  consider (a) "sub_ws_runs (s @ [a]) = sub_ws_runs s"
    | (b) "sub_ws_runs (s @ [a]) = sub_ws_runs s @ [0x20]" by (auto simp: sub_ws_runs_coll)
  then show ?case
  proof cases
    case a
    then show ?thesis by (simp only: norm_tail_def)
  next
    case b
    have "strip (filter (kept_char L) (sub_ws_runs s @ [0x20])) = strip (filter (kept_char L) (sub_ws_runs s))"
      by (simp add: kept_space is_space_32 strip_trailing)
    with b show ?thesis by (simp only: norm_tail_def)
  qed
next
  case (sym s t)
  then show ?case by simp
next
  case (trans s t u)
  then show ?case by simp
qed

section \<open>UTF-8 encoding\<close>

lemma utf8_char_cases:
  assumes "utf8_char c = Some b"
  obtains (one) "c < 0x80" "b = [c]"
  | (two) "0x80 \<le> c" "c < 0x800" "b = [0xC0 + c div 64, 0x80 + c mod 64]"
  | (three) "0x800 \<le> c" "c < 0x10000"
      "b = [0xE0 + c div 4096, 0x80 + c div 64 mod 64, 0x80 + c mod 64]"
  | (four) "0x10000 \<le> c" "c < 0x110000"
      "b = [0xF0 + c div 262144, 0x80 + c div 4096 mod 64, 0x80 + c div 64 mod 64, 0x80 + c mod 64]"
proof -
  consider "c < 0x80" | "0x80 \<le> c \<and> c < 0x800" | "0x800 \<le> c \<and> c < 0x10000"
    | "0x10000 \<le> c \<and> c < 0x110000" | "0x110000 \<le> c" by linarith
  then show thesis
  proof cases
    case 1 with assms that(1) show ?thesis by (simp add: utf8_char_def)
  next
    case 2 with assms that(2) show ?thesis by (simp add: utf8_char_def)
  next
    case 3 with assms that(3) show ?thesis by (simp add: utf8_char_def split: if_splits)
  next
    case 4 with assms that(4) show ?thesis by (simp add: utf8_char_def split: if_splits)
  next
    case 5 with assms show ?thesis by (simp add: utf8_char_def split: if_splits)
  qed
qed

lemma div64_recompose: "(c::nat) div 64 * 64 + c mod 64 = c"
  by simp

lemma utf8_first_char:
  assumes "utf8_char c = Some b"
  shows "utf8_first (b @ r) = (c, r)"
  using assms
proof (cases rule: utf8_char_cases)
  case one
  then show ?thesis by simp
next
  case two
  have "c div 64 < 32" using two(2) by (intro less_mult_imp_div_less) simp
  then show ?thesis using two(3) by simp
next
  case three
  have lt: "c div 4096 < 16" using three(2) by (intro less_mult_imp_div_less) simp
  have "c div 4096 = c div 64 div 64" by (simp add: div_mult2_eq [symmetric])
  then have "(c div 4096 * 64 + c div 64 mod 64) * 64 + c mod 64 = c" by simp
  then show ?thesis using three(3) lt by simp
next
  case four
  have lt: "c div 262144 < 8" using four(2) by (intro less_mult_imp_div_less) simp
  have "c div 4096 = c div 64 div 64" "c div 262144 = c div 64 div 64 div 64"
    by (simp_all add: div_mult2_eq [symmetric])
  then have "((c div 262144 * 64 + c div 4096 mod 64) * 64 + c div 64 mod 64) * 64 + c mod 64 = c"
    by simp
  then show ?thesis using four(3) lt by simp
qed

lemma utf8_char_inj:
  assumes "utf8_char c = Some b" "utf8_char c' = Some b'" "b @ r = b' @ r'"
  shows "c = c' \<and> r = r'"
proof -
  have "utf8_first (b @ r) = (c, r)" "utf8_first (b' @ r') = (c', r')"
    using assms(1,2) by (simp_all add: utf8_first_char)
  with assms(3) show ?thesis by simp
qed

lemma utf8_char_nonempty: "utf8_char c = Some b \<Longrightarrow> b \<noteq> []"
  by (auto simp: utf8_char_def split: if_splits)

lemma utf8_encode_Cons:
  "utf8_encode (c # cs) = Some bs \<longleftrightarrow>
     (\<exists>b r. utf8_char c = Some b \<and> utf8_encode cs = Some r \<and> bs = b @ r)"
  by (auto split: option.splits)

lemma utf8_encode_inj:
  "utf8_encode s = Some bs \<Longrightarrow> utf8_encode s' = Some bs \<Longrightarrow> s = s'"
proof (induction s arbitrary: s' bs)
  case Nil
  then have "bs = []" by simp
  with Nil(2) show ?case
    by (cases s') (auto simp only: utf8_encode_Cons dest: utf8_char_nonempty)
next
  case (Cons c cs)
  from Cons.prems(1) obtain b r where b: "utf8_char c = Some b" "utf8_encode cs = Some r" "bs = b @ r"
    unfolding utf8_encode_Cons by blast
  show ?case
  proof (cases "s' = []")
    case True
    with Cons.prems(2) have "bs = []" by simp
    with b(1,3) show ?thesis by (auto dest: utf8_char_nonempty)
  next
    case False
    then obtain c' cs' where s': "s' = c' # cs'" by (auto simp: neq_Nil_conv)
    from Cons.prems(2) have "utf8_encode (c' # cs') = Some bs" unfolding s' .
    then obtain b' r' where b': "utf8_char c' = Some b'" "utf8_encode cs' = Some r'" "bs = b' @ r'"
      unfolding utf8_encode_Cons by blast
    from b(3) b'(3) have "b @ r = b' @ r'" by simp
    from utf8_char_inj [OF b(1) b'(1) this] have e: "c = c'" "r = r'" by auto
    from b'(2) e(2) have "utf8_encode cs' = Some r" by simp
    from Cons.IH [OF b(2) this] e(1) s' show ?thesis by simp
  qed
qed

lemma split_at_bar:
  "c \<notin> set x \<Longrightarrow> c \<notin> set x' \<Longrightarrow> x @ c # u = x' @ c # u' \<Longrightarrow> x = x' \<and> u = u'"
proof (induction x arbitrary: x')
  case Nil
  then show ?case by (cases x') auto
next
  case (Cons a x)
  then show ?case by (cases x') auto
qed

lemma set_strip: "set (strip s) \<subseteq> set s"
proof -
  have "set (strip s) \<subseteq> set (rev (dropWhile is_space s))"
    unfolding strip_def using set_dropWhileD by fastforce
  also have "\<dots> \<subseteq> set s" using set_dropWhileD by fastforce
  finally show ?thesis .
qed

lemma bar_not_kept: "\<not> re_word L 0x7C \<Longrightarrow> \<not> kept_char L 0x7C"
  by (simp add: kept_char_def is_space_def)

lemma bar_not_in_normalized: "\<not> re_word L 0x7C \<Longrightarrow> 0x7C \<notin> set (normalize_title L t)"
  using set_strip bar_not_kept by (fastforce simp: normalize_title_def Let_def)

lemma hash_base_inj:
  assumes "\<not> re_word L 0x7C" "hash_base L t u = hash_base L t' u'"
  shows "normalize_title L t = normalize_title L t' \<and> or_empty u = or_empty u'"
  using assms(2) bar_not_in_normalized [OF assms(1)]
  unfolding hash_base_def asc_def
  by (intro split_at_bar [where c = "0x7C"]) auto

lemma make_hash_shape:
  assumes "hexdigest_ok L" "make_hash L t u = Inr h"
  shows "length h = 24 \<and> list_all is_hex h"
proof -
  from assms(2) obtain bs where h: "h = take 24 (sha256_hexdigest L bs)"
    by (auto simp: make_hash_def Let_def split: option.splits)
  from assms(1) have "length (sha256_hexdigest L bs) = 64" "list_all is_hex (sha256_hexdigest L bs)"
    by (auto simp: hexdigest_ok_def)
  then show ?thesis unfolding h by (auto simp: list_all_iff dest: in_set_takeD)
qed

lemma normalize_title_norm_tail: "normalize_title L t = norm_tail L (str_lower L t)"
  by (simp add: normalize_title_def norm_tail_def)

section \<open>Fingerprints\<close>

lemma utf8_encode_total: "(\<forall>c \<in> set s. utf8_char c \<noteq> None) \<Longrightarrow> utf8_encode s \<noteq> None"
  by (induction s) (auto split: option.splits)

lemma kept_char_encodable:
  assumes "word_encodable L" "kept_char L c"
  shows "utf8_char c \<noteq> None"
proof (cases "re_word L c")
  case True
  with assms(1) show ?thesis by (simp add: word_encodable_def)
next
  case False
  with assms(2) have "c < 0xD800" by (auto simp: kept_char_def is_space_def)
  then show ?thesis by (simp add: utf8_char_def)
qed

lemma normalized_kept: "c \<in> set (normalize_title L t) \<Longrightarrow> kept_char L c"
  using set_strip by (fastforce simp: normalize_title_def Let_def)

lemma make_hash_no_url:
  assumes "word_encodable L"
  shows "make_hash L t None = Inr (take 24 (sha256_hexdigest L (the (utf8_encode (normalize_title L t @ [0x7C])))))"
proof -
  have "\<forall>c \<in> set (normalize_title L t @ [0x7C]). utf8_char c \<noteq> None"
    using kept_char_encodable [OF assms] normalized_kept by (auto simp: utf8_char_def)
  then have "utf8_encode (normalize_title L t @ [0x7C]) \<noteq> None" by (rule utf8_encode_total)
  then show ?thesis
    by (auto simp: make_hash_def hash_base_def or_empty_def asc_def Let_def)
qed

lemma make_hash_normalized:
  "normalize_title L t = normalize_title L t' \<Longrightarrow> make_hash L t u = make_hash L t' u"
  by (simp add: make_hash_def hash_base_def)

lemma lower_ws_variant:
  assumes L: "lower_ws_local L" and v: "ws_variant s t"
  shows "ws_variant (str_lower L s) (str_lower L t)"
  using v
proof (induction rule: ws_variant.induct)
  case (same s)
  show ?case by (rule ws_variant.same)
next
  case (other a b xs ys)
  with L have "str_lower L (xs @ a # ys) = str_lower L xs @ a # str_lower L ys"
    "str_lower L (xs @ b # ys) = str_lower L xs @ b # str_lower L ys"
    by (simp_all add: lower_ws_local_def)
  with other show ?case by (simp add: ws_variant.other)
next
  case (longer a b xs ys)
  from L longer have "str_lower L (xs @ a # ys) = str_lower L xs @ a # str_lower L ys"
    by (simp add: lower_ws_local_def)
  moreover from L longer have "str_lower L (xs @ a # b # ys) = str_lower L xs @ a # str_lower L ([] @ b # ys)"
    by (simp add: lower_ws_local_def)
  moreover from L longer have "str_lower L ([] @ b # ys) = str_lower L [] @ b # str_lower L ys"
    unfolding lower_ws_local_def by blast
  moreover from L have "str_lower L [] = []" by (simp add: lower_ws_local_def)
  ultimately show ?case using longer by (simp add: ws_variant.longer)
next
  case (leading a s)
  from L leading have "str_lower L ([] @ a # s) = str_lower L [] @ a # str_lower L s"
    unfolding lower_ws_local_def by blast
  moreover from L have "str_lower L [] = []" by (simp add: lower_ws_local_def)
  ultimately show ?case using leading by (simp add: ws_variant.leading)
next
  case (trailing a s)
  from L trailing have "str_lower L (s @ a # []) = str_lower L s @ a # str_lower L []"
    unfolding lower_ws_local_def by blast
  moreover from L have "str_lower L [] = []" by (simp add: lower_ws_local_def)
  ultimately show ?case using trailing by (simp add: ws_variant.trailing)
next
  case (sym s t)
  then show ?case by (simp add: ws_variant.sym)
next
  case (trans s t u)
  then show ?case using ws_variant.trans by blast
qed

lemma utf8_encode_append:
  "utf8_encode (a @ b) =
     (case utf8_encode a of None \<Rightarrow> None
      | Some x \<Rightarrow> (case utf8_encode b of None \<Rightarrow> None | Some y \<Rightarrow> Some (x @ y)))"
  by (induction a) (auto split: option.splits)

lemma normalized_encodable: "word_encodable L \<Longrightarrow> encodable (normalize_title L t)"
  unfolding encodable_def
  by (rule utf8_encode_total) (use kept_char_encodable normalized_kept in blast)

lemma hash_base_encodable:
  "word_encodable L \<Longrightarrow> encodable (hash_base L t u) \<longleftrightarrow> encodable (or_empty u)"
  using normalized_encodable [of L t]
  by (auto simp: encodable_def hash_base_def utf8_encode_append asc_def utf8_char_def
      split: option.splits)

lemma make_hash_raises:
  "\<not> encodable (or_empty u) \<Longrightarrow> make_hash L t u = Inl UnicodeEncodeError"
  by (auto simp: make_hash_def hash_base_def encodable_def utf8_encode_append Let_def
      split: option.splits)

lemma make_hash_returns:
  assumes "word_encodable L" "hexdigest_ok L" "encodable (or_empty u)"
  shows "\<exists>h. make_hash L t u = Inr h \<and> length h = 24 \<and> list_all is_hex h"
proof -
  from assms(1,3) have "encodable (hash_base L t u)" by (simp add: hash_base_encodable)
  then obtain bs where "utf8_encode (hash_base L t u) = Some bs" by (auto simp: encodable_def)
  then have "make_hash L t u = Inr (take 24 (sha256_hexdigest L bs))"
    by (simp add: make_hash_def Let_def)
  with make_hash_shape [OF assms(2)] show ?thesis by blast
qed

lemma make_hash_collision:
  assumes bar: "\<not> re_word L 0x7C"
    and h: "make_hash L t u = Inr h" and h': "make_hash L t' u' = Inr h"
  shows "(normalize_title L t = normalize_title L t' \<and> or_empty u = or_empty u')
    \<or> (\<exists>bs bs'. bs \<noteq> bs' \<and> utf8_encode (hash_base L t u) = Some bs
          \<and> utf8_encode (hash_base L t' u') = Some bs'
          \<and> take 24 (sha256_hexdigest L bs) = take 24 (sha256_hexdigest L bs'))"
proof -
  from h obtain bs where bs: "utf8_encode (hash_base L t u) = Some bs"
    and e: "h = take 24 (sha256_hexdigest L bs)"
    by (auto simp: make_hash_def Let_def split: option.splits)
  from h' obtain bs' where bs': "utf8_encode (hash_base L t' u') = Some bs'"
    and e': "h = take 24 (sha256_hexdigest L bs')"
    by (auto simp: make_hash_def Let_def split: option.splits)
  show ?thesis
  proof (cases "bs = bs'")
    case True
    with bs bs' have "hash_base L t u = hash_base L t' u'" using utf8_encode_inj by blast
    with hash_base_inj [OF bar] show ?thesis by blast
  next
    case False
    with bs bs' e e' show ?thesis by auto
  qed
qed

text \<open>
  Claim C6, as the code has it.  The fingerprint is a function of the normalised title
  and the url.  It is 24 hexadecimal characters whenever the url can be encoded in
  UTF-8, and \<open>UnicodeEncodeError\<close> whenever the url holds a lone surrogate (the
  normalised title can always be encoded).  Titles with the same lower-case form have
  the same fingerprint, and so have titles that differ only in runs of whitespace, and
  titles whose lower-case forms differ only so.  A missing url gives the fingerprint of
  the empty url, and no error.  Two inputs with the same fingerprint have the same
  normalised title and the same url, or else their two distinct byte strings are a
  collision of SHA-256 cut to 24 digits: distinct fingerprints for distinct pairs rest
  on the digest alone.  The hypotheses on the library are that every word character can
  be encoded, that a digest is 64 hexadecimal digits, that \<open>str.lower\<close> copies
  whitespace and works apart on both sides of it, and that the bar is no word character.
\<close>

theorem make_hash_fingerprint:
  "(normalize_title L t = normalize_title L t' \<and> or_empty u = or_empty u'
      \<longrightarrow> make_hash L t u = make_hash L t' u')
   \<and> (word_encodable L \<and> hexdigest_ok L \<and> encodable (or_empty u)
      \<longrightarrow> (\<exists>h. make_hash L t u = Inr h \<and> length h = 24 \<and> list_all is_hex h))
   \<and> (\<not> encodable (or_empty u) \<longrightarrow> make_hash L t u = Inl UnicodeEncodeError)
   \<and> (str_lower L t = str_lower L t' \<longrightarrow> make_hash L t u = make_hash L t' u)
   \<and> (lower_ws_local L \<and> ws_variant t t' \<longrightarrow> make_hash L t u = make_hash L t' u)
   \<and> (ws_variant (str_lower L t) (str_lower L t') \<longrightarrow> make_hash L t u = make_hash L t' u)
   \<and> make_hash L t None = make_hash L t (Some [])
   \<and> (word_encodable L \<and> hexdigest_ok L
      \<longrightarrow> (\<exists>h. make_hash L t None = Inr h \<and> length h = 24 \<and> list_all is_hex h))
   \<and> (\<not> re_word L 0x7C \<and> make_hash L t u = Inr h \<and> make_hash L t' u' = Inr h
      \<longrightarrow> (normalize_title L t = normalize_title L t' \<and> or_empty u = or_empty u')
        \<or> (\<exists>bs bs'. bs \<noteq> bs' \<and> utf8_encode (hash_base L t u) = Some bs
              \<and> utf8_encode (hash_base L t' u') = Some bs'
              \<and> take 24 (sha256_hexdigest L bs) = take 24 (sha256_hexdigest L bs')))"
proof (intro conjI impI)
  show "make_hash L t u = make_hash L t' u'"
    if "normalize_title L t = normalize_title L t' \<and> or_empty u = or_empty u'"
    using that by (simp add: make_hash_def hash_base_def)
  show "\<exists>h. make_hash L t u = Inr h \<and> length h = 24 \<and> list_all is_hex h"
    if "word_encodable L \<and> hexdigest_ok L \<and> encodable (or_empty u)"
    using that make_hash_returns by blast
  show "make_hash L t u = Inl UnicodeEncodeError" if "\<not> encodable (or_empty u)"
    using that by (rule make_hash_raises)
  show "make_hash L t u = make_hash L t' u" if "str_lower L t = str_lower L t'"
    using that by (intro make_hash_normalized) (simp add: normalize_title_norm_tail)
  show "make_hash L t u = make_hash L t' u" if "lower_ws_local L \<and> ws_variant t t'"
  proof -
    from that have "ws_variant (str_lower L t) (str_lower L t')" by (simp add: lower_ws_variant)
    from ws_variant_norm [OF this] show ?thesis
      by (intro make_hash_normalized) (simp add: normalize_title_norm_tail)
  qed
  show "make_hash L t u = make_hash L t' u" if "ws_variant (str_lower L t) (str_lower L t')"
    using ws_variant_norm [OF that]
    by (intro make_hash_normalized) (simp add: normalize_title_norm_tail)
  show "make_hash L t None = make_hash L t (Some [])"
    by (simp add: make_hash_def hash_base_def or_empty_def)
  show "\<exists>h. make_hash L t None = Inr h \<and> length h = 24 \<and> list_all is_hex h"
    if "word_encodable L \<and> hexdigest_ok L"
    using that make_hash_returns [of L None t] by (simp add: or_empty_def encodable_def)
  show "(normalize_title L t = normalize_title L t' \<and> or_empty u = or_empty u')
        \<or> (\<exists>bs bs'. bs \<noteq> bs' \<and> utf8_encode (hash_base L t u) = Some bs
              \<and> utf8_encode (hash_base L t' u') = Some bs'
              \<and> take 24 (sha256_hexdigest L bs) = take 24 (sha256_hexdigest L bs'))"
    if "\<not> re_word L 0x7C \<and> make_hash L t u = Inr h \<and> make_hash L t' u' = Inr h"
    using that make_hash_collision by blast
qed

lemma hexdigit_is_hex: "d < 16 \<Longrightarrow> is_hex (hexdigit d)"
  by (auto simp: is_hex_def hexdigit_def)

lemma demo_digest_ok: "hexdigest_ok demo_lib"
proof -
  have "length (demo_digest bs) = 64" for bs by (simp add: demo_digest_def)
  moreover have "list_all is_hex (demo_digest bs)" for bs
  proof -
    have "\<forall>c \<in> set (concat (map (\<lambda>b. [hexdigit (b div 16 mod 16), hexdigit (b mod 16)]) bs) @ replicate 64 0x30). is_hex c"
      by (auto simp: hexdigit_is_hex) (simp add: is_hex_def)
    then show ?thesis unfolding demo_digest_def list_all_iff by (meson in_set_takeD)
  qed
  ultimately show ?thesis by (simp add: hexdigest_ok_def demo_lib_def)
qed

lemma demo_word_encodable: "word_encodable demo_lib"
  by (auto simp: word_encodable_def demo_lib_def utf8_char_def)


lemmas demo_eval = make_hash_def hash_base_def or_empty_def asc_def demo_lib_def normalize_title_def
      kept_char_def is_space_def strip_def utf8_char_def demo_digest_def hexdigit_def Let_def

lemma demo_lower_ws_local: "lower_ws_local demo_lib"
  by (auto simp: lower_ws_local_def demo_lib_def is_space_def)

theorem make_hash_fingerprint_witness:
  "word_encodable demo_lib \<and> hexdigest_ok demo_lib \<and> lower_ws_local demo_lib
   \<and> \<not> re_word demo_lib 0x7C
   \<and> encodable (or_empty (Some (asc ''http://x'')))
   \<and> make_hash demo_lib (asc ''Samsung  Q3'') (Some (asc ''http://x''))
       = Inr (asc ''73616d73756e672071337c68'')
   \<and> length (asc ''73616d73756e672071337c68'') = 24
   \<and> list_all is_hex (asc ''73616d73756e672071337c68'')
   \<and> \<not> encodable (or_empty (Some [0xD800]))
   \<and> make_hash demo_lib (asc ''Samsung  Q3'') (Some [0xD800]) = Inl UnicodeEncodeError
   \<and> str_lower demo_lib (asc ''Samsung Q3'') = str_lower demo_lib (asc ''SAMSUNG q3'')
   \<and> make_hash demo_lib (asc ''Samsung Q3'') (Some (asc ''http://x''))
       = make_hash demo_lib (asc ''SAMSUNG q3'') (Some (asc ''http://x''))
   \<and> ws_variant (asc ''Samsung  Q3'') (asc ''Samsung Q3'')
   \<and> make_hash demo_lib (asc ''Samsung  Q3'') (Some (asc ''http://x''))
       = make_hash demo_lib (asc ''Samsung Q3'') (Some (asc ''http://x''))
   \<and> ws_variant (str_lower demo_lib (asc ''Samsung  Q3'')) (str_lower demo_lib (asc ''SAMSUNG q3''))
   \<and> make_hash demo_lib (asc ''Samsung  Q3'') (Some (asc ''http://x''))
       = make_hash demo_lib (asc ''SAMSUNG q3'') (Some (asc ''http://x''))
   \<and> make_hash demo_lib (asc ''Samsung  Q3'') None = Inr (asc ''73616d73756e672071337c00'')
   \<and> make_hash demo_lib (asc ''SAMSUNG q3'') (Some (asc ''http://x''))
       = Inr (asc ''73616d73756e672071337c68'')
   \<and> normalize_title demo_lib (asc ''Samsung  Q3'') = normalize_title demo_lib (asc ''SAMSUNG q3'')"
proof -
  let ?L = demo_lib
  let ?t = "asc ''Samsung  Q3''" and ?t' = "asc ''SAMSUNG q3''" and ?t2 = "asc ''Samsung Q3''"
  let ?u = "Some (asc ''http://x'')" and ?s = "Some [0xD800::nat]"
  let ?h = "asc ''73616d73756e672071337c68''"
  have we: "word_encodable ?L" by (rule demo_word_encodable)
  have ok: "hexdigest_ok ?L" by (rule demo_digest_ok)
  have lw: "lower_ws_local ?L" by (rule demo_lower_ws_local)
  have nb: "\<not> re_word ?L 0x7C" by (simp add: demo_lib_def)
  have eu: "encodable (or_empty ?u)" by (simp add: encodable_def or_empty_def asc_def utf8_char_def)
  have ns: "\<not> encodable (or_empty ?s)" by (simp add: encodable_def or_empty_def utf8_char_def)
  have mh: "make_hash ?L ?t ?u = Inr ?h" by (simp add: demo_eval)
  have mh': "make_hash ?L ?t' ?u = Inr ?h" by (simp add: demo_eval)
  have sl: "str_lower ?L ?t2 = str_lower ?L ?t'" by (simp add: demo_eval)
  have v0: "ws_variant (asc ''Samsung'' @ 0x20 # asc ''Q3'') (asc ''Samsung'' @ 0x20 # 0x20 # asc ''Q3'')"
    by (rule ws_variant.longer) (simp_all add: is_space_def)
  then have "ws_variant (asc ''Samsung'' @ 0x20 # 0x20 # asc ''Q3'') (asc ''Samsung'' @ 0x20 # asc ''Q3'')"
    by (rule ws_variant.sym)
  then have wr: "ws_variant ?t ?t2" by (simp add: asc_def)
  have "ws_variant (asc ''samsung'' @ 0x20 # asc ''q3'') (asc ''samsung'' @ 0x20 # 0x20 # asc ''q3'')"
    by (rule ws_variant.longer) (simp_all add: is_space_def)
  then have "ws_variant (asc ''samsung'' @ 0x20 # 0x20 # asc ''q3'') (asc ''samsung'' @ 0x20 # asc ''q3'')"
    by (rule ws_variant.sym)
  moreover have "str_lower ?L ?t = asc ''samsung'' @ 0x20 # 0x20 # asc ''q3''"
    "str_lower ?L ?t' = asc ''samsung'' @ 0x20 # asc ''q3''"
    by (simp_all add: demo_eval)
  ultimately have wl: "ws_variant (str_lower ?L ?t) (str_lower ?L ?t')" by simp
  note A = make_hash_fingerprint [of ?L ?t ?t' ?u ?u ?h]
  note B = make_hash_fingerprint [of ?L ?t2 ?t' ?u ?u ?h]
  note C = make_hash_fingerprint [of ?L ?t ?t2 ?u ?u ?h]
  note D = make_hash_fingerprint [of ?L ?t ?t' ?s ?s ?h]
  from A we ok eu obtain h1 where h1: "make_hash ?L ?t ?u = Inr h1" "length h1 = 24" "list_all is_hex h1"
    by blast
  with mh have c1: "length ?h = 24" "list_all is_hex ?h" by simp_all
  from D ns have c2: "make_hash ?L ?t ?s = Inl UnicodeEncodeError" by blast
  from B sl have c3: "make_hash ?L ?t2 ?u = make_hash ?L ?t' ?u" by blast
  from C lw wr have c4: "make_hash ?L ?t ?u = make_hash ?L ?t2 ?u" by blast
  from A wl have c5: "make_hash ?L ?t ?u = make_hash ?L ?t' ?u" by blast
  have r: "replicate 2 (48::nat) = [48, 48]" by (simp add: numeral_2_eq_2)
  from A we ok obtain h0 where "make_hash ?L ?t None = Inr h0" by blast
  then have c6: "make_hash ?L ?t None = Inr (asc ''73616d73756e672071337c00'')"
    by (simp add: demo_eval r)
  have "\<not> (\<exists>bs bs'. bs \<noteq> bs' \<and> utf8_encode (hash_base ?L ?t ?u) = Some bs
          \<and> utf8_encode (hash_base ?L ?t' ?u) = Some bs')"
    by (simp add: demo_eval)
  with A nb mh mh' have c7: "normalize_title ?L ?t = normalize_title ?L ?t'" by blast
  from we ok lw nb eu mh c1 ns c2 sl c3 wr c4 wl c5 c6 mh' c7 show ?thesis by blast
qed

text \<open>
  A url that is the lone surrogate U+D800: \<open>make_hash\<close> raises at
  \<open>base.encode("utf-8")\<close> and returns no fingerprint, with every library and every
  title.
\<close>

theorem make_hash_surrogate_counterexample:
  "make_hash demo_lib (asc ''x'') (Some [0xD800]) = Inl UnicodeEncodeError
   \<and> (\<forall>L t. make_hash L t (Some [0xD800]) = Inl UnicodeEncodeError)"
proof -
  have "\<not> encodable (or_empty (Some [0xD800]))"
    by (simp add: encodable_def or_empty_def utf8_char_def)
  then show ?thesis using make_hash_raises by blast
qed

section \<open>Timestamps and their text\<close>

lemma lex_le_refl: "lex_le xs xs"
  by (induction xs) auto

lemma lex_le_append:
  "length p = length q \<Longrightarrow>
   lex_le (p @ x) (q @ y) \<longleftrightarrow> (p \<noteq> q \<and> lex_le p q) \<or> (p = q \<and> lex_le x y)"
proof (induction p q rule: list_induct2)
  case Nil
  show ?case by simp
next
  case (Cons a p b q)
  then show ?case by auto
qed

lemma length_zpad: "length (zpad k n) = k"
  by (induction k) auto

lemma zpad_add: "zpad k (a * 10 ^ k + b) = zpad k b"
proof (induction k arbitrary: a)
  case 0
  show ?case by simp
next
  case (Suc k)
  have e: "a * 10 ^ Suc k + b = b + (a * 10) * 10 ^ k" by simp
  have "(a * 10 ^ Suc k + b) div 10 ^ k = a * 10 + b div 10 ^ k"
    unfolding e by (rule div_mult_self1) simp
  then have h: "(a * 10 ^ Suc k + b) div 10 ^ k mod 10 = b div 10 ^ k mod 10"
    by simp
  have e2: "a * 10 ^ Suc k + b = (a * 10) * 10 ^ k + b" by (simp add: mult.assoc)
  have t: "zpad k (a * 10 ^ Suc k + b) = zpad k b" unfolding e2 by (rule Suc.IH)
  show ?case by (simp only: zpad.simps h t)
qed

lemma zpad_mod: "zpad k n = zpad k (n mod 10 ^ k)"
proof -
  have "zpad k n = zpad k ((n div 10 ^ k) * 10 ^ k + n mod 10 ^ k)"
    by (simp only: div_mult_mod_eq)
  also have "\<dots> = zpad k (n mod 10 ^ k)" by (rule zpad_add)
  finally show ?thesis .
qed

lemma divmod_le:
  fixes m n d :: nat
  assumes "0 < d"
  shows "m \<le> n \<longleftrightarrow> m div d < n div d \<or> (m div d = n div d \<and> m mod d \<le> n mod d)"
proof -
  have m: "m = m div d * d + m mod d" and n: "n = n div d * d + n mod d" by simp_all
  have md: "m mod d < d" "n mod d < d" using assms by simp_all
  show ?thesis
  proof (cases "m div d < n div d")
    case True
    then have "m div d + 1 \<le> n div d" by simp
    then have "(m div d + 1) * d \<le> n div d * d" by (rule mult_le_mono1)
    then have "m div d * d + d \<le> n div d * d" by (simp add: algebra_simps)
    with md(1) have "m div d * d + m mod d \<le> n div d * d + n mod d" by linarith
    with m n True show ?thesis by metis
  next
    case False
    show ?thesis
    proof (cases "m div d = n div d")
      case True
      then show ?thesis by (metis m n nat_add_left_cancel_le less_irrefl)
    next
      case neq: False
      with False have "n div d < m div d" by simp
      then have "n div d + 1 \<le> m div d" by simp
      then have "(n div d + 1) * d \<le> m div d * d" by (rule mult_le_mono1)
      then have "n div d * d + d \<le> m div d * d" by (simp add: algebra_simps)
      with md(2) have "n div d * d + n mod d < m div d * d + m mod d" by linarith
      with m n have "n < m" by metis
      with False neq show ?thesis by simp
    qed
  qed
qed

lemma zpad_order:
  "m < 10 ^ k \<Longrightarrow> n < 10 ^ k \<Longrightarrow>
   (zpad k m = zpad k n \<longleftrightarrow> m = n) \<and> (lex_le (zpad k m) (zpad k n) \<longleftrightarrow> m \<le> n)"
proof (induction k arbitrary: m n)
  case 0
  then show ?case by simp
next
  case (Suc k)
  let ?d = "(10::nat) ^ k"
  have dpos: "0 < ?d" by simp
  have a: "m div ?d < 10" "n div ?d < 10"
    using Suc.prems by (simp_all add: less_mult_imp_div_less mult.commute)
  have b: "m mod ?d < ?d" "n mod ?d < ?d" by simp_all
  note IH = Suc.IH [OF b]
  have zm: "zpad (Suc k) m = (48 + m div ?d) # zpad k (m mod ?d)"
    using a(1) zpad_mod [of k m] by simp
  have zn: "zpad (Suc k) n = (48 + n div ?d) # zpad k (n mod ?d)"
    using a(2) zpad_mod [of k n] by simp
  have eq: "m = n \<longleftrightarrow> m div ?d = n div ?d \<and> m mod ?d = n mod ?d"
    by (metis div_mult_mod_eq)
  show ?case
    unfolding zm zn using IH eq divmod_le [OF dpos, of m n] by auto
qed

lemma lex_le_zpad_append:
  assumes "m < 10 ^ k" "n < 10 ^ k"
  shows "lex_le (zpad k m @ x) (zpad k n @ y) \<longleftrightarrow> m < n \<or> (m = n \<and> lex_le x y)"
proof -
  have "length (zpad k m) = length (zpad k n)" by (simp add: length_zpad)
  from lex_le_append [OF this] zpad_order [OF assms] show ?thesis by auto
qed

lemma lex_le_zpad_sep:
  assumes "m < 10 ^ k" "n < 10 ^ k"
  shows "lex_le (zpad k m @ c # x) (zpad k n @ c # y) \<longleftrightarrow> m < n \<or> (m = n \<and> lex_le x y)"
  using lex_le_zpad_append [OF assms, of "c # x" "c # y"] by simp

lemma frac_tz_order:
  assumes "microsecond a < 10 ^ 6" "microsecond b < 10 ^ 6"
  shows "lex_le (frac_tz a) (frac_tz b) \<longleftrightarrow> microsecond a \<le> microsecond b"
proof -
  have tz: "lex_le (asc ''+09:00'') (asc ''+09:00'')" by (rule lex_le_refl)
  consider (zz) "microsecond a = 0" "microsecond b = 0"
    | (zp) "microsecond a = 0" "microsecond b \<noteq> 0"
    | (pz) "microsecond a \<noteq> 0" "microsecond b = 0"
    | (pp) "microsecond a \<noteq> 0" "microsecond b \<noteq> 0" by blast
  then show ?thesis
  proof cases
    case zz
    with tz show ?thesis by (simp add: frac_tz_def)
  next
    case zp
    then show ?thesis by (simp add: frac_tz_def asc_def)
  next
    case pz
    then show ?thesis by (simp add: frac_tz_def asc_def)
  next
    case pp
    have "lex_le (zpad 6 (microsecond a) @ asc ''+09:00'') (zpad 6 (microsecond b) @ asc ''+09:00'')
          \<longleftrightarrow> microsecond a \<le> microsecond b"
      using lex_le_zpad_append [OF assms] tz by auto
    with pp show ?thesis by (simp add: frac_tz_def asc_def)
  qed
qed

lemma isoformat_frac_tz:
  "isoformat d =
     zpad 4 (year d) @ 45 # zpad 2 (month d) @ 45 # zpad 2 (day d) @ 84
     # zpad 2 (hour d) @ 58 # zpad 2 (minute d) @ 58 # zpad 2 (second d) @ frac_tz d"
  by (simp add: isoformat_def frac_tz_def asc_def)

lemma days_in_month_le: "days_in_month y m \<le> 31"
  by (simp add: days_in_month_def)

lemma valid_dt_widths:
  assumes "valid_dt d"
  shows "year d < 10 ^ 4" "month d < 10 ^ 2" "day d < 10 ^ 2" "hour d < 10 ^ 2"
    "minute d < 10 ^ 2" "second d < 10 ^ 2" "microsecond d < 10 ^ 6"
  using assms days_in_month_le [of "year d" "month d"] by (simp_all add: valid_dt_def)

lemma dt_le_unfold:
  "dt_le a b \<longleftrightarrow>
     year a < year b \<or> (year a = year b \<and>
     (month a < month b \<or> (month a = month b \<and>
     (day a < day b \<or> (day a = day b \<and>
     (hour a < hour b \<or> (hour a = hour b \<and>
     (minute a < minute b \<or> (minute a = minute b \<and>
     (second a < second b \<or> (second a = second b \<and>
      microsecond a \<le> microsecond b)))))))))))"
  by (auto simp: dt_le_def dt_fields_def)

theorem isoformat_order:
  assumes "valid_dt a" "valid_dt b"
  shows "lex_le (isoformat a) (isoformat b) \<longleftrightarrow> dt_le a b"
proof -
  note wa = valid_dt_widths [OF assms(1)] and wb = valid_dt_widths [OF assms(2)]
  show ?thesis
    unfolding isoformat_frac_tz dt_le_unfold
    by (simp only: lex_le_zpad_sep [OF wa(1) wb(1)] lex_le_zpad_sep [OF wa(2) wb(2)]
        lex_le_zpad_sep [OF wa(3) wb(3)] lex_le_zpad_sep [OF wa(4) wb(4)]
        lex_le_zpad_sep [OF wa(5) wb(5)] lex_le_zpad_append [OF wa(6) wb(6)]
        frac_tz_order [OF wa(7) wb(7)])
qed

section \<open>The calendar\<close>

lemma radix_le:
  fixes x x' r r' k :: nat
  assumes "r < k" "r' < k"
  shows "x * k + r \<le> x' * k + r' \<longleftrightarrow> x < x' \<or> (x = x' \<and> r \<le> r')"
proof -
  have kpos: "0 < k" using assms(1) by simp
  have "(x * k + r) div k = x" "(x * k + r) mod k = r" "(x' * k + r') div k = x'" "(x' * k + r') mod k = r'"
    using assms by simp_all
  with divmod_le [OF kpos, of "x * k + r" "x' * k + r'"] show ?thesis by simp
qed

lemma radix_eq:
  fixes x x' r r' k :: nat
  assumes "r < k" "r' < k"
  shows "x * k + r = x' * k + r' \<longleftrightarrow> x = x' \<and> r = r'"
proof -
  have "(x * k + r) div k = x" "(x * k + r) mod k = r" "(x' * k + r') div k = x'" "(x' * k + r') mod k = r'"
    using assms by simp_all
  then show ?thesis by metis
qed

lemma radix_less:
  fixes x x' r r' k :: nat
  assumes "r < k" "r' < k"
  shows "x * k + r < x' * k + r' \<longleftrightarrow> x < x' \<or> (x = x' \<and> r < r')"
  using radix_le [OF assms, of x x'] radix_eq [OF assms, of x x'] by auto

text \<open>Months.\<close>

lemma month_cases:
  assumes "1 \<le> m" "m \<le> (12::nat)"
  shows "m = 1 \<or> m = 2 \<or> m = 3 \<or> m = 4 \<or> m = 5 \<or> m = 6 \<or> m = 7 \<or> m = 8 \<or> m = 9 \<or> m = 10
    \<or> m = 11 \<or> m = 12"
  using assms by arith

lemma days_before_month_step:
  assumes "1 \<le> m" "m \<le> 11"
  shows "days_before_month y (Suc m) = days_before_month y m + days_in_month y m"
proof -
  from assms have "m = 1 \<or> m = 2 \<or> m = 3 \<or> m = 4 \<or> m = 5 \<or> m = 6 \<or> m = 7 \<or> m = 8 \<or> m = 9 \<or> m = 10
    \<or> m = 11" by arith
  then show ?thesis
    by (elim disjE) (simp_all add: days_before_month_def days_in_month_def DAYS_BEFORE_MONTH_def)
qed

lemma days_before_month_mono:
  assumes "1 \<le> m" "m \<le> m'" "m' \<le> 12"
  shows "days_before_month y m \<le> days_before_month y m'"
  using assms(2,1,3)
proof (induction m' rule: dec_induct)
  case base
  show ?case by simp
next
  case (step n)
  then have "days_before_month y (Suc n) = days_before_month y n + days_in_month y n"
    by (intro days_before_month_step) simp_all
  with step show ?case by simp
qed

lemma day_of_year_le:
  assumes "1 \<le> m" "m \<le> 12" "d \<le> days_in_month y m"
  shows "days_before_month y m + d \<le> days_in_year y"
proof -
  have "days_before_month y m + days_in_month y m \<le> days_in_year y"
  proof (cases "m = 12")
    case True
    then show ?thesis
      by (simp add: days_before_month_def days_in_month_def DAYS_BEFORE_MONTH_def days_in_year_def)
  next
    case False
    with assms have m11: "m \<le> 11" by simp
    have "days_before_month y m + days_in_month y m = days_before_month y (Suc m)"
      using days_before_month_step [OF assms(1) m11] by simp
    also have "\<dots> \<le> days_before_month y 12"
      using m11 by (intro days_before_month_mono) simp_all
    also have "\<dots> \<le> days_in_year y"
      by (simp add: days_before_month_def DAYS_BEFORE_MONTH_def days_in_year_def)
    finally show ?thesis .
  qed
  with assms(3) show ?thesis by simp
qed

text \<open>Years.\<close>

lemma div_step:
  fixes y n :: nat
  assumes "0 < n" "1 \<le> y"
  shows "y div n = (y - 1) div n + (if y mod n = 0 then 1 else 0)"
proof -
  obtain x where x: "y = Suc x" using assms(2) by (cases y) auto
  show ?thesis unfolding x using assms(1) by (simp add: div_Suc mod_Suc)
qed

lemma days_before_year_step:
  assumes "1 \<le> y"
  shows "days_before_year (Suc y) = days_before_year y + days_in_year y"
proof -
  define x where "x = y - 1"
  define A B C where "A = x div 4" and "B = x div 100" and "C = x div 400"
  define a b c :: nat where "a = (if y mod 4 = 0 then 1 else 0)"
    and "b = (if y mod 100 = 0 then 1 else 0)" and "c = (if y mod 400 = 0 then 1 else 0)"
  have y: "y = Suc x" using assms by (simp add: x_def)
  have da: "y div 4 = A + a" and db: "y div 100 = B + b" and dc: "y div 400 = C + c"
    using div_step [OF _ assms] by (simp_all add: A_def B_def C_def a_def b_def c_def x_def)
  have le: "B \<le> A" unfolding A_def B_def by (rule div_le_mono2) simp_all
  have m1: "y mod 100 = 0 \<Longrightarrow> y mod 4 = 0"
  proof -
    assume "y mod 100 = 0"
    then have "100 dvd y" by (simp add: mod_eq_0_iff_dvd)
    moreover have "(4::nat) dvd 100" by simp
    ultimately have "4 dvd y" by (rule dvd_trans [rotated])
    then show ?thesis by (simp add: mod_eq_0_iff_dvd)
  qed
  have ba: "b \<le> a" using m1 by (simp add: a_def b_def)
  have diy: "days_in_year y = 365 + a - b + c"
  proof -
    have m2: "y mod 400 = 0 \<Longrightarrow> y mod 100 = 0"
    proof -
      assume "y mod 400 = 0"
      then have "400 dvd y" by (simp add: mod_eq_0_iff_dvd)
      moreover have "(100::nat) dvd 400" by simp
      ultimately have "100 dvd y" by (rule dvd_trans [rotated])
      then show ?thesis by (simp add: mod_eq_0_iff_dvd)
    qed
    show ?thesis using m1 m2 by (auto simp: days_in_year_def is_leap_def a_def b_def c_def)
  qed
  have l: "days_before_year (Suc y) = y * 365 + (A + a) - (B + b) + (C + c)"
    by (simp add: days_before_year_def da db dc)
  have r: "days_before_year y = x * 365 + A - B + C"
    by (simp add: days_before_year_def A_def B_def C_def x_def)
  have "y * 365 = x * 365 + 365" by (simp add: y)
  with le ba show ?thesis unfolding l r diy by linarith
qed

lemma days_before_year_mono:
  assumes "1 \<le> y" "y \<le> y'"
  shows "days_before_year y \<le> days_before_year y'"
  using assms(2,1)
proof (induction y' rule: dec_induct)
  case base
  show ?case by simp
next
  case (step n)
  then show ?case using days_before_year_step [of n] by simp
qed


lemma ymd2ord_less:
  assumes v: "valid_date y m d" and v': "valid_date y' m' d'"
    and lt: "y < y' \<or> (y = y' \<and> (m < m' \<or> (m = m' \<and> d < d')))"
  shows "ymd2ord y m d < ymd2ord y' m' d'"
proof -
  from v have y1: "1 \<le> y" and m1: "1 \<le> m" and m12: "m \<le> 12" and d: "d \<le> days_in_month y m"
    by (simp_all add: valid_date_def)
  from v' have d'1: "1 \<le> d'" and m'12: "m' \<le> 12" by (simp_all add: valid_date_def)
  from lt consider (year) "y < y'" | (month) "y = y'" "m < m'" | (day) "y = y'" "m = m'" "d < d'"
    by blast
  then show ?thesis
  proof cases
    case year
    have "days_before_month y m + d \<le> days_in_year y" by (rule day_of_year_le [OF m1 m12 d])
    then have "ymd2ord y m d \<le> days_before_year (Suc y)"
      by (simp add: ymd2ord_def days_before_year_step [OF y1])
    also have "\<dots> \<le> days_before_year y'"
      using year by (intro days_before_year_mono) simp_all
    also have "\<dots> < ymd2ord y' m' d'" using d'1 by (simp add: ymd2ord_def)
    finally show ?thesis .
  next
    case month
    then have m11: "m \<le> 11" using m'12 by simp
    have "days_before_month y m + d \<le> days_before_month y (Suc m)"
      using d by (simp add: days_before_month_step [OF m1 m11])
    also have "\<dots> \<le> days_before_month y m'"
      using month(2) m'12 by (intro days_before_month_mono) simp_all
    finally have "days_before_month y m + d < days_before_month y m' + d'" using d'1 by simp
    with month(1) show ?thesis by (simp add: ymd2ord_def)
  next
    case day
    then show ?thesis by (simp add: ymd2ord_def)
  qed
qed

lemma valid_dt_date: "valid_dt a \<Longrightarrow> valid_date (year a) (month a) (day a)"
  by (simp add: valid_dt_def valid_date_def)

lemma date_ord_cmp:
  assumes "valid_dt a" "valid_dt b"
  shows "date_ord a < date_ord b \<longleftrightarrow>
           year a < year b \<or> (year a = year b \<and> (month a < month b \<or> (month a = month b \<and> day a < day b)))"
    and "date_ord a = date_ord b \<longleftrightarrow> year a = year b \<and> month a = month b \<and> day a = day b"
proof -
  let ?lt = "\<lambda>a b. year a < year b \<or> (year a = year b \<and> (month a < month b \<or> (month a = month b \<and> day a < day b)))"
  note va = valid_dt_date [OF assms(1)] and vb = valid_dt_date [OF assms(2)]
  have ab: "?lt a b \<Longrightarrow> date_ord a < date_ord b"
    unfolding date_ord_def by (rule ymd2ord_less [OF va vb])
  have ba: "?lt b a \<Longrightarrow> date_ord b < date_ord a"
    unfolding date_ord_def by (rule ymd2ord_less [OF vb va])
  have tri: "?lt a b \<or> ?lt b a \<or> (year a = year b \<and> month a = month b \<and> day a = day b)"
    by linarith
  have eq: "year a = year b \<and> month a = month b \<and> day a = day b \<Longrightarrow> date_ord a = date_ord b"
    by (simp add: date_ord_def)
  show "date_ord a < date_ord b \<longleftrightarrow> ?lt a b" using ab ba tri eq by (metis less_irrefl less_asym)
  show "date_ord a = date_ord b \<longleftrightarrow> year a = year b \<and> month a = month b \<and> day a = day b"
    using ab ba tri eq by (metis less_irrefl)
qed

lemma to_us_date_ord:
  "to_us d = int ((((date_ord d * 24 + hour d) * 60 + minute d) * 60 + second d) * 1000000 + microsecond d)"
  by (simp add: to_us_def date_ord_def)

theorem dt_le_chronological:
  assumes "valid_dt a" "valid_dt b"
  shows "dt_le a b \<longleftrightarrow> to_us a \<le> to_us b"
proof -
  from assms have ra: "hour a < 24" "minute a < 60" "second a < 60" "microsecond a < 1000000"
    and rb: "hour b < 24" "minute b < 60" "second b < 60" "microsecond b < 1000000"
    by (simp_all add: valid_dt_def)
  show ?thesis
    unfolding dt_le_unfold to_us_date_ord of_nat_le_iff
    by (simp only: radix_le [OF ra(4) rb(4)] radix_less [OF ra(3) rb(3)] radix_eq [OF ra(3) rb(3)]
        radix_less [OF ra(2) rb(2)] radix_eq [OF ra(2) rb(2)]
        radix_less [OF ra(1) rb(1)] radix_eq [OF ra(1) rb(1)]
        date_ord_cmp [OF assms]) blast
qed

section \<open>Parsing a timestamp back\<close>

lemma digits_val_zpad:
  "n < 10 ^ k \<Longrightarrow> digits_val acc (zpad k n) = Some (acc * 10 ^ k + n)"
proof (induction k arbitrary: acc n)
  case 0
  then show ?case by simp
next
  case (Suc k)
  let ?d = "(10::nat) ^ k"
  have a: "n div ?d < 10" using Suc.prems by (simp add: less_mult_imp_div_less mult.commute)
  have b: "n mod ?d < ?d" by simp
  have z: "zpad (Suc k) n = (48 + n div ?d) # zpad k (n mod ?d)"
    using a zpad_mod [of k n] by simp
  have "digits_val (acc * 10 + n div ?d) (zpad k (n mod ?d)) = Some ((acc * 10 + n div ?d) * ?d + n mod ?d)"
    by (rule Suc.IH [OF b])
  moreover have "(acc * 10 + n div ?d) * ?d + n mod ?d = acc * 10 ^ Suc k + n"
  proof -
    have e1: "n div ?d * ?d + n mod ?d = n" by (rule div_mult_mod_eq)
    have "(acc * 10 + n div ?d) * ?d + n mod ?d = acc * 10 * ?d + (n div ?d * ?d + n mod ?d)"
      by (simp only: add_mult_distrib add.assoc)
    also have "\<dots> = acc * 10 ^ Suc k + n" unfolding e1 by (simp add: mult.assoc)
    finally show ?thesis .
  qed
  ultimately show ?case unfolding z using a by simp
qed

lemma field_zpad:
  assumes "n < 10 ^ k" "length pre = pos"
  shows "field (pre @ zpad k n @ post) pos k = Some n"
  using assms by (simp add: field_def length_zpad digits_val_zpad)

lemma length_isoformat_prefix:
  "length (zpad 4 y @ 45 # zpad 2 m @ 45 # zpad 2 d @ 84 # zpad 2 h @ 58 # zpad 2 mi @ 58 # zpad 2 s) = 19"
  by (simp add: length_zpad)


lemma demo_fromisoformat_isoformat:
  assumes "valid_dt d"
  shows "demo_fromisoformat (isoformat d) = Inr d"
proof -
  note w = valid_dt_widths [OF assms]
  have dv: "digits_val 0 (zpad 4 (year d)) = Some (year d)"
    "digits_val 0 (zpad 2 (month d)) = Some (month d)"
    "digits_val 0 (zpad 2 (day d)) = Some (day d)"
    "digits_val 0 (zpad 2 (hour d)) = Some (hour d)"
    "digits_val 0 (zpad 2 (minute d)) = Some (minute d)"
    "digits_val 0 (zpad 2 (second d)) = Some (second d)"
    "digits_val 0 (zpad 6 (microsecond d)) = Some (microsecond d)"
    using w by (simp_all add: digits_val_zpad)
  have r: "\<lparr>year = year d, month = month d, day = day d, hour = hour d, minute = minute d,
            second = second d, microsecond = microsecond d\<rparr> = d" by simp
  show ?thesis
  proof (cases "microsecond d = 0")
    case True
    then have r0: "\<lparr>year = year d, month = month d, day = day d, hour = hour d, minute = minute d,
            second = second d, microsecond = 0\<rparr> = d" using r by simp
    show ?thesis
      using True assms
      by (simp add: demo_fromisoformat_def field_def isoformat_def asc_def length_zpad dv r0)
  next
    case False
    then show ?thesis
      using assms
      by (simp add: demo_fromisoformat_def field_def isoformat_def asc_def length_zpad dv r)
  qed
qed

section \<open>The state file\<close>

lemma strs_of_map: "strs_of (map JStr hs) = Some hs"
  by (induction hs) auto

lemma json_entry_entry_json: "json_entry (entry_json d) = Some d"
  by (simp add: json_entry_def entry_json_def get_str_def asc_def)

lemma json_entries_map: "json_entries (map entry_json ds) = Some ds"
  by (induction ds) (auto simp: json_entry_entry_json)

lemma json_state_state_json: "json_state (state_json st) = Some st"
  by (simp add: json_state_def state_json_def asc_def strs_of_map json_entries_map)



section \<open>Eviction from the store\<close>

lemma last_n_snoc: "0 < n \<Longrightarrow> last_n n (last_n n xs @ [x]) = last_n n (xs @ [x])"
proof (cases "length xs \<le> n")
  case True
  then show ?thesis by (simp add: last_n_def)
next
  case False
  assume n: "0 < n"
  from False have e: "Suc (length xs) - n = Suc (length xs - n)" by simp
  from False n have "last_n n (last_n n xs @ [x]) = drop 1 (drop (length xs - n) xs) @ [x]"
    by (simp add: last_n_def)
  also have "\<dots> = drop (Suc (length xs - n)) xs @ [x]" by simp
  also from False n have "\<dots> = last_n n (xs @ [x])" by (simp add: last_n_def e)
  finally show ?thesis .
qed

lemma set_last_n: "set (last_n n xs) \<subseteq> set xs"
  unfolding last_n_def by (rule set_drop_subset)

lemma foldl_feed:
  assumes "distinct fs" "set fs \<inter> set seen = {}"
  shows "foldl feed seen fs = last_n 8000 (seen @ fs) \<or> fs = []"
  using assms
proof (induction fs rule: rev_induct)
  case Nil
  show ?case by simp
next
  case (snoc f fs)
  then have d: "distinct fs" and i: "set fs \<inter> set seen = {}" and f: "f \<notin> set fs" "f \<notin> set seen"
    by auto
  have "f \<notin> set (foldl feed seen fs)"
  proof (cases "fs = []")
    case True
    with f show ?thesis by simp
  next
    case False
    with snoc.IH [OF d i] have "foldl feed seen fs = last_n 8000 (seen @ fs)" by simp
    with set_last_n [of 8000 "seen @ fs"] f show ?thesis by auto
  qed
  then have step: "foldl feed seen (fs @ [f]) = last_n 8000 (foldl feed seen fs @ [f])"
    by (simp add: feed_def record_fp_def)
  show ?case
  proof (cases "fs = []")
    case True
    with step show ?thesis by simp
  next
    case False
    with snoc.IH [OF d i] have "foldl feed seen fs = last_n 8000 (seen @ fs)" by simp
    with step show ?thesis by (simp add: last_n_snoc)
  qed
qed

lemma length_last_n: "n \<le> length xs \<Longrightarrow> length (last_n n xs) = n"
  by (simp add: last_n_def)

lemma last_n_append: "n \<le> length ys \<Longrightarrow> last_n n (xs @ ys) = drop (length ys - n) ys"
  by (simp add: last_n_def)

text \<open>
  Claim C4.  Insert \<open>M > 8000\<close> distinct fingerprints, none of them in the store before,
  one after the other (the test, the append and the trim of the main loop).  Afterwards
  the store is the list of the last 8000 of them, in the order of insertion: it holds
  exactly 8000 fingerprints, every one of the 8000 inserted last is present, and each of
  the \<open>M - 8000\<close> inserted first is absent, as is everything the store held before.
\<close>

theorem store_fifo_eviction:
  assumes "distinct fs" and "set fs \<inter> set seen = {}" and "8000 < length fs"
  shows "foldl feed seen fs = drop (length fs - 8000) fs
    \<and> length (foldl feed seen fs) = 8000
    \<and> set (drop (length fs - 8000) fs) \<subseteq> set (foldl feed seen fs)
    \<and> set (take (length fs - 8000) fs) \<inter> set (foldl feed seen fs) = {}
    \<and> set seen \<inter> set (foldl feed seen fs) = {}"
proof -
  from assms(3) have ne: "fs \<noteq> []" by auto
  with foldl_feed [OF assms(1,2)] have "foldl feed seen fs = last_n 8000 (seen @ fs)" by simp
  with assms(3) have e: "foldl feed seen fs = drop (length fs - 8000) fs"
    by (simp add: last_n_append)
  have "distinct (take (length fs - 8000) fs @ drop (length fs - 8000) fs)"
    using assms(1) by simp
  then have t: "set (take (length fs - 8000) fs) \<inter> set (drop (length fs - 8000) fs) = {}"
    by (simp only: distinct_append)
  have s: "set seen \<inter> set (drop (length fs - 8000) fs) = {}"
    using assms(2) set_drop_subset [of "length fs - 8000" fs] by auto
  from assms(3) have l: "length (drop (length fs - 8000) fs) = 8000" by simp
  show ?thesis unfolding e using t s l by simp
qed

theorem store_fifo_eviction_witness:
  "foldl feed [] (map (\<lambda>n. [n]) [0..<8001]) = map (\<lambda>n. [n]) [1..<8001]
   \<and> length (foldl feed [] (map (\<lambda>n. [n]) [0..<8001])) = 8000
   \<and> [0] \<notin> set (foldl feed [] (map (\<lambda>n. [n]) [0..<8001]))
   \<and> [8000] \<in> set (foldl feed [] (map (\<lambda>n. [n]) [0..<8001]))"
proof -
  have d: "distinct (map (\<lambda>n::nat. [n]) [0..<8001])"
    by (simp add: distinct_map inj_on_def)
  have i: "set (map (\<lambda>n::nat. [n]) [0..<8001]) \<inter> set [] = {}" by simp
  have l: "8000 < length (map (\<lambda>n::nat. [n]) [0..<8001])" by simp
  have e: "drop (length (map (\<lambda>n::nat. [n]) [0..<8001]) - 8000) (map (\<lambda>n::nat. [n]) [0..<8001])
     = map (\<lambda>n. [n]) [1..<8001]"
    by (simp add: drop_map drop_upt del: upt_rec_numeral)
  have f: "foldl feed [] (map (\<lambda>n::nat. [n]) [0..<8001]) = map (\<lambda>n. [n]) [1..<8001]"
    using store_fifo_eviction [OF d i l] by (simp only: e)
  show ?thesis unfolding f by (auto simp del: upt_rec_numeral)
qed
end
